theory Spec2Isabelle
  imports Main "HOL-Library.Word" "HOL-Library.Multiset"
begin

unbundle bit_operations_syntax

section \<open>Cards\<close>

text \<open>
  A \<open>Card\<close> is a \<open>uint8\<close>: the two low bits are the suit, the bits above them hold
  rank minus one, with Ace = 1 and King = 13.  Valid cards are the numbers below 52.
\<close>

type_synonym Card = "8 word"

type_synonym int16 = "16 word"

definition Suit :: "Card \<Rightarrow> 8 word" where
  "Suit c = (if 127 < c then 254 else c AND 3)"

definition Valid :: "Card \<Rightarrow> bool" where
  "Valid c \<longleftrightarrow> c < 52"

text \<open>The expression \<open>(int(c>>2) & 15) + 1\<close> that every function of the evaluator
  uses to read the rank (1..16; 1 is the Ace).\<close>

definition rank_of :: "Card \<Rightarrow> nat" where
  "rank_of c = unat (drop_bit 2 c AND 15) + 1"

section \<open>Results, errors and panics\<close>

text \<open>
  Modelled from the spec: the type \<open>eval\<close> and the functions \<open>evalScore5\<close> and
  \<open>evalScore\<close> that build it are declared outside the files at hand.  The spec (3, Eval /
  Category) describes the classification result as a category tag 0..9 plus up to five
  ordered tie-break rank values, and the raw ordinal \<open>eval.rank\<close> as a deterministic
  function of them.  An \<open>eval\<close> is therefore kept as the call that produced it:
  \<open>EvalScore5 f a b c d e\<close> for \<open>evalScore5(f, a, b, c, d, e)\<close> and
  \<open>EvalScore fmt f vs\<close> for the text variant \<open>evalScore(fmt, f, vs...)\<close>.
\<close>

datatype eval =
    EvalScore5 int int int int int int
  | EvalScore string int "int list"

fun category :: "eval \<Rightarrow> int" where
  "category (EvalScore5 f a b c d e) = f"
| "category (EvalScore fmt f vs) = f"

text \<open>Values of Go's \<open>error\<close> that \<open>evalSlow27\<close> returns.\<close>

datatype err =
    NeedFiveCards nat
  | FailedToEvalHand "Card list"

text \<open>Panics: the run-time panic of an array index out of range, and the four
  \<open>panic\<close> calls of the table construction.\<close>

datatype panic =
    IndexOutOfRange
  | FailedToEvaluateHand "Card list"
  | InvalidHashIndex nat
  | InvalidRankZero "Card list"
  | UnfilledTableEntry nat

text \<open>A \<open>for ... range\<close> loop whose body may panic: the first panic ends the loop.\<close>

fun for_each :: "('a \<Rightarrow> 's \<Rightarrow> panic + 's) \<Rightarrow> 'a list \<Rightarrow> 's \<Rightarrow> panic + 's" where
  "for_each body [] s = Inr s"
| "for_each body (x # xs) s =
     (case body x s of Inl p \<Rightarrow> Inl p | Inr s' \<Rightarrow> for_each body xs s')"

text \<open>\<open>for x := lo; x < hi; x++\<close>.\<close>

definition for_range :: "nat \<Rightarrow> nat \<Rightarrow> (nat \<Rightarrow> 's \<Rightarrow> panic + 's) \<Rightarrow> 's \<Rightarrow> panic + 's" where
  "for_range lo hi body s = for_each body [lo..<hi] s"

section \<open>Sorting\<close>

text \<open>The comparison function that \<open>SortCards\<close> hands to \<open>sort.Slice\<close>: higher rank
  first, the Ace counted as 14, and the higher suit first among equal ranks.\<close>

definition card_less :: "Card \<Rightarrow> Card \<Rightarrow> bool" where
  "card_less x y =
     (let ri = rank_of x; rj = rank_of y;
          ri = (if ri = 1 then 14 else ri);
          rj = (if rj = 1 then 14 else rj)
      in if ri \<noteq> rj then rj < ri else y AND 3 < x AND 3)"

text \<open>
  \<open>sort.Slice\<close> belongs to Go's library.  On a slice of at most twelve elements it runs
  an insertion sort: for \<open>i = 1, 2, ...\<close> the element at \<open>i\<close> is swapped towards the front
  while it is less than its left neighbour.  \<open>insert_left x ys\<close> does this for one
  element \<open>x\<close>, where \<open>ys\<close> is the part to its left, nearest neighbour first.
\<close>

fun insert_left :: "Card \<Rightarrow> Card list \<Rightarrow> Card list" where
  "insert_left x [] = [x]"
| "insert_left x (y # ys) = (if card_less x y then y # insert_left x ys else x # y # ys)"

definition SortCards :: "Card list \<Rightarrow> Card list" where
  "SortCards cards = rev (foldl (\<lambda>left x. insert_left x left) [] cards)"

section \<open>The slow evaluator\<close>

text \<open>
  Modelled from the spec: \<open>isFlush\<close> is declared outside the files at hand.  The spec
  (4.1, step 1) says: true iff all 5 cards share a suit.
\<close>

definition isFlush :: "Card list \<Rightarrow> bool" where
  "isFlush c = (case c of [] \<Rightarrow> True | x # xs \<Rightarrow> list_all (\<lambda>y. Suit y = Suit x) xs)"

text \<open>
  Modelled from the spec: \<open>poptop\<close> is declared outside the files at hand.  The spec
  (4.1, step 5) says: pop the highest set bit from the bucket bitmask, most significant
  rank first.  The rank value returned is the position of that bit; the second result is
  the mask without it.  The spec says nothing about an empty mask, which here yields 0.
\<close>

primrec top_bit :: "nat \<Rightarrow> 16 word \<Rightarrow> nat" where
  "top_bit 0 x = 0"
| "top_bit (Suc n) x = (if bit x n then n else top_bit n x)"

definition poptop :: "16 word \<Rightarrow> int \<times> 16 word" where
  "poptop x = (let n = top_bit 16 x in (int n, x AND NOT (push_bit n 1)))"

text \<open>The local arrays and variables of \<open>evalSlow27\<close>.\<close>

record slow_state =
  ranks :: "nat list"
  dupes :: "int list"
  str8s :: "int list"
  str8top :: nat
  rankBits :: "16 word list"

definition slow_init :: slow_state where
  "slow_init = \<lparr>ranks = replicate 13 0, dupes = replicate 6 0, str8s = replicate 13 0,
                str8top = 0, rankBits = replicate 6 0\<rparr>"

text \<open>
  The four statements that count one card of rank slot \<open>rawr\<close>:
  \<^verbatim>\<open>
  rankBits[ranks[rawr]] |= 1 << rawr
  ranks[rawr]++
  dupes[ranks[rawr]]++
  dupes[ranks[rawr]-1]--
  \<close>
  An index outside its array is a run-time panic.
\<close>

definition count_rank :: "nat \<Rightarrow> slow_state \<Rightarrow> panic + slow_state" where
  "count_rank rawr s =
     (if length (ranks s) \<le> rawr then Inl IndexOutOfRange
      else let k = ranks s ! rawr in
        if length (rankBits s) \<le> k then Inl IndexOutOfRange
        else let rb = (rankBits s)[k := rankBits s ! k OR push_bit rawr 1];
                 rs = (ranks s)[rawr := k + 1] in
          if length (dupes s) \<le> k + 1 then Inl IndexOutOfRange
          else let d1 = (dupes s)[k + 1 := dupes s ! (k + 1) + 1];
                   d2 = d1[k := d1 ! k - 1]
               in Inr (s\<lparr>rankBits := rb, ranks := rs, dupes := d2\<rparr>))"

text \<open>One round of the inner loop of the first pass (\<open>i\<close> from 0 to 4): mark the window
  and record the top of a completed straight.  \<open>cr\<close> is the rank with the Ace as 14.\<close>

definition mark_window :: "nat \<Rightarrow> nat \<Rightarrow> slow_state \<Rightarrow> panic + slow_state" where
  "mark_window cr i s =
     (let idx = (if cr \<noteq> 14 then ((cr - 1) + i) mod 13 else (13 + i) mod 13);
          w = (str8s s ! idx) OR push_bit i 1;
          s1 = s\<lparr>str8s := (str8s s)[idx := w]\<rparr>
      in if w = 31 \<and> 5 \<le> idx then Inr (s1\<lparr>str8top := (idx + 12) mod 13 + 1\<rparr>) else Inr s1)"

definition first_pass_card :: "Card \<Rightarrow> slow_state \<Rightarrow> panic + slow_state" where
  "first_pass_card ci s =
     (let cr = rank_of ci;
          cr = (if cr = 1 then 14 else cr);
          rawr = (cr + 11) mod 13
      in case count_rank rawr s of
           Inl p \<Rightarrow> Inl p
         | Inr s1 \<Rightarrow> for_range 0 5 (mark_window cr) s1)"

text \<open>The loop over \<open>j\<close> of the second pass: every card is counted again, the Ace in
  slot 12 and any other card in slot \<open>cr - 1\<close>.\<close>

definition recount_card :: "Card \<Rightarrow> slow_state \<Rightarrow> panic + slow_state" where
  "recount_card cj s =
     (let cr = rank_of cj in
      if cr = 1 then count_rank 12 s else count_rank (cr - 1) s)"

text \<open>The outer loop of the second pass: at the first Ace the counters are cleared,
  all cards are counted again, and the loop is left.\<close>

fun second_pass :: "Card list \<Rightarrow> Card list \<Rightarrow> slow_state \<Rightarrow> panic + slow_state" where
  "second_pass [] c s = Inr s"
| "second_pass (ci # rest) c s =
     (if rank_of ci = 1
      then for_each recount_card c
             (s\<lparr>ranks := replicate 13 0, dupes := replicate 6 0, rankBits := replicate 6 0\<rparr>)
      else second_pass rest c s)"

text \<open>The five statements \<open>rankBits[k] &^= rankBits[k+1]\<close>, for \<open>k\<close> from 0 to 4.\<close>

definition mask_buckets :: "16 word list \<Rightarrow> 16 word list" where
  "mask_buckets rb =
     (let rb = rb[0 := rb ! 0 AND NOT (rb ! 1)];
          rb = rb[1 := rb ! 1 AND NOT (rb ! 2)];
          rb = rb[2 := rb ! 2 AND NOT (rb ! 3)];
          rb = rb[3 := rb ! 3 AND NOT (rb ! 4)];
          rb = rb[4 := rb ! 4 AND NOT (rb ! 5)]
      in rb)"

text \<open>The cascade of category tests, in the order of the source.  \<open>n\<close> is \<open>len(c)\<close>.\<close>

definition classify :: "nat \<Rightarrow> bool \<Rightarrow> bool \<Rightarrow> bool \<Rightarrow> Card list \<Rightarrow> slow_state \<Rightarrow> err + eval" where
  "classify n flush replace text c s =
     (let d = dupes s; top = str8top s; rb = rankBits s in
      if \<not> flush \<and> top = 0 \<and> d ! 1 = int n then
        (let (a, r0) = poptop (rb ! 0); (b, r0) = poptop r0; (c, r0) = poptop r0;
             (d, r0) = poptop r0; (e, r0) = poptop r0
         in if text then Inr (EvalScore ''%s-%s-%s-%s-%s'' 0 [a, b, c, d, e])
            else Inr (EvalScore5 0 a b c d e))
      else if d ! 2 = 1 \<and> d ! 3 = 0 then
        (let (p, r1) = poptop (rb ! 1);
             (a, r0) = poptop (rb ! 0); (b, r0) = poptop r0; (c, r0) = poptop r0
         in if text then Inr (EvalScore ''%[1]s%[1]s-%s-%s-%s'' 1 [p, a, b, c])
            else Inr (EvalScore5 1 p a b c 0))
      else if d ! 2 = 2 then
        (let (p, r1) = poptop (rb ! 1); (q, r1) = poptop r1;
             (a, r0) = poptop (rb ! 0)
         in if text then Inr (EvalScore ''%[1]s%[1]s-%[2]s%[2]s-%[3]s'' 2 [p, q, a])
            else Inr (EvalScore5 2 p q a 0 0))
      else if d ! 3 = 1 \<and> d ! 2 = 0 then
        (if replace then
           (let (a, r0) = poptop (rb ! 0); (b, r0) = poptop r0;
                (t, r2) = poptop (rb ! 2)
            in if text then Inr (EvalScore ''%[1]s%[1]s%[1]s-%s-%s'' 3 [t, a, b])
               else Inr (EvalScore5 3 t a b 0 0))
         else if n = 5 then
           (let (t, r2) = poptop (rb ! 2)
            in if text then Inr (EvalScore ''%[1]s%[1]s%[1]s-x-y'' 3 [t])
               else Inr (EvalScore5 3 t 0 0 0 0))
         else
           (let (t, r2) = poptop (rb ! 2)
            in if text then Inr (EvalScore ''%[1]s%[1]s%[1]s'' 3 [t])
               else Inr (EvalScore5 3 t 0 0 0 0)))
      else if top \<noteq> 0 \<and> \<not> flush then
        (if text then Inr (EvalScore ''%s straight'' 4 [int ((top + 11) mod 13 + 2)])
         else Inr (EvalScore5 4 (int ((top + 11) mod 13 + 2)) 0 0 0 0))
      else if flush \<and> top = 0 then
        (let (a, r0) = poptop (rb ! 0); (b, r0) = poptop r0; (c, r0) = poptop r0;
             (d, r0) = poptop r0; (e, r0) = poptop r0
         in if text then Inr (EvalScore ''%s%s%s%s%s flush'' 5 [a, b, c, d, e])
            else Inr (EvalScore5 5 a b c d e))
      else if d ! 2 = 1 \<and> d ! 3 = 1 then
        (let (t, r2) = poptop (rb ! 2); (p, r1) = poptop (rb ! 1)
         in if replace then
              (if text then Inr (EvalScore ''%[1]s%[1]s%[1]s-%[2]s%[2]s'' 6 [t, p])
               else Inr (EvalScore5 6 t p 0 0 0))
            else if text then Inr (EvalScore ''%[1]s%[1]s%[1]s-xx'' 6 [t])
            else Inr (EvalScore5 6 t 0 0 0 0))
      else if d ! 4 = 1 then
        (let (q, r3) = poptop (rb ! 3); (a, r0) = poptop (rb ! 0)
         in if replace then
              (if text then Inr (EvalScore ''%[1]s%[1]s%[1]s%[1]s-%[2]s'' 7 [q, a])
               else Inr (EvalScore5 7 q a 0 0 0))
            else if text then Inr (EvalScore ''%[1]s%[1]s%[1]s%[1]s-x'' 7 [q])
            else Inr (EvalScore5 7 q 0 0 0 0))
      else if top \<noteq> 0 \<and> flush then
        (if text then Inr (EvalScore ''%s straight flush'' 8 [int ((top + 11) mod 13 + 2)])
         else Inr (EvalScore5 8 (int ((top + 11) mod 13 + 2)) 0 0 0 0))
      else if d ! 5 = 1 then
        (let (q, r4) = poptop (rb ! 4)
         in if text then Inr (EvalScore ''%[1]s%[1]s%[1]s%[1]s%[1]s'' 9 [q])
            else Inr (EvalScore5 9 q 0 0 0 0))
      else Inl (FailedToEvalHand c))"

text \<open>The counters as they stand when the cascade starts: both passes done, the
  buckets not yet masked.\<close>

definition count_passes :: "Card list \<Rightarrow> panic + slow_state" where
  "count_passes c =
     (case for_each first_pass_card c slow_init of
        Inl p \<Rightarrow> Inl p
      | Inr s1 \<Rightarrow> second_pass c c s1)"

definition evalSlow27 :: "Card list \<Rightarrow> bool \<Rightarrow> bool \<Rightarrow> panic + (err + eval)" where
  "evalSlow27 c replace text =
     (if length c \<noteq> 5 then Inr (Inl (NeedFiveCards (length c)))
      else case count_passes c of
             Inl p \<Rightarrow> Inl p
           | Inr s \<Rightarrow>
               Inr (classify (length c) (isFlush c) replace text c
                      (s\<lparr>rankBits := mask_buckets (rankBits s)\<rparr>)))"

section \<open>The lookup table\<close>

text \<open>\<open>pow\<close> multiplies in Go's 64-bit \<open>int\<close>.\<close>

definition pow :: "64 word \<Rightarrow> nat \<Rightarrow> 64 word" where
  "pow base exp = fold (\<lambda>i result. result * base) [0..<exp] 1"

text \<open>The loop of \<open>perfectHash\<close>; \<open>i\<close> is the index of the card at the head of the
  list and \<open>val\<close> the \<open>uint32\<close> accumulator.\<close>

fun perfectHash_loop :: "nat \<Rightarrow> Card list \<Rightarrow> 32 word \<Rightarrow> 32 word" where
  "perfectHash_loop i [] val = val"
| "perfectHash_loop i (c # cs) val =
     (let rank = (ucast (drop_bit 2 c AND 15) :: 32 word);
          suit = (ucast (c AND 3) :: 32 word)
      in perfectHash_loop (i + 1) cs (val + (rank * 4 + suit) * ucast (pow 53 i)))"

definition perfectHash :: "Card list \<Rightarrow> nat" where
  "perfectHash cards = unat (perfectHash_loop 0 cards 0 mod 7462)"

text \<open>
  The table \<open>evalInfo.slowRankToPacked\<close> is declared outside the files at hand.  It is
  a parameter of every function that reads it: \<open>slowRankToPacked ev\<close> stands for
  \<open>evalInfo.slowRankToPacked[ev.rank]\<close>.
\<close>

type_synonym packing = "eval \<Rightarrow> int16"

text \<open>The package variables \<open>deuce7RootTable\<close> (\<open>None\<close> is the nil slice) and
  \<open>deuce7TableInit\<close> (whether the \<open>sync.Once\<close> has run).  A panic ends the program, so
  no state is kept after one.\<close>

record globals =
  deuce7RootTable :: "int16 list option"
  deuce7TableInit :: bool

definition initial_globals :: globals where
  "initial_globals = \<lparr>deuce7RootTable = None, deuce7TableInit = False\<rparr>"

text \<open>The body of the innermost loop of \<open>initDeuce7Table\<close>, for the cards
  \<open>cards[0..4]\<close>.\<close>

definition store_hand :: "packing \<Rightarrow> Card list \<Rightarrow> int16 list \<Rightarrow> panic + int16 list" where
  "store_hand slowRankToPacked cards table =
     (let cardSlice = SortCards cards in
      case evalSlow27 cardSlice True False of
        Inl p \<Rightarrow> Inl p
      | Inr (Inl e) \<Rightarrow> Inl (FailedToEvaluateHand cardSlice)
      | Inr (Inr ev) \<Rightarrow>
          (let idx = perfectHash cardSlice in
           if length table \<le> idx then Inl (InvalidHashIndex idx)
           else let slowRank = slowRankToPacked ev in
             if slowRank = 0 then Inl (InvalidRankZero cardSlice)
             else Inr (table[idx := slowRank])))"

text \<open>The five nested loops.\<close>

definition fill_table :: "(Card list \<Rightarrow> 's \<Rightarrow> panic + 's) \<Rightarrow> 's \<Rightarrow> panic + 's" where
  "fill_table body =
     for_range 0 52 (\<lambda>i.
       for_range (i + 1) 52 (\<lambda>j.
         for_range (j + 1) 52 (\<lambda>k.
           for_range (k + 1) 52 (\<lambda>l.
             for_range (l + 1) 52 (\<lambda>m.
               body [of_nat i, of_nat j, of_nat k, of_nat l, of_nat m])))))"

text \<open>The final loop: an entry that still holds the sentinel is a panic.\<close>

fun verify_filled :: "nat \<Rightarrow> int16 list \<Rightarrow> panic + unit" where
  "verify_filled i [] = Inr ()"
| "verify_filled i (v # vs) =
     (if v = - 1 then Inl (UnfilledTableEntry i) else verify_filled (i + 1) vs)"

text \<open>The function that \<open>initDeuce7Table\<close> passes to \<open>deuce7TableInit.Do\<close>.\<close>

definition build_table :: "packing \<Rightarrow> panic + int16 list" where
  "build_table slowRankToPacked =
     (case fill_table (store_hand slowRankToPacked) (replicate 7462 (- 1)) of
        Inl p \<Rightarrow> Inl p
      | Inr table \<Rightarrow>
          (case verify_filled 0 table of Inl p \<Rightarrow> Inl p | Inr u \<Rightarrow> Inr table))"

definition initDeuce7Table :: "packing \<Rightarrow> globals \<Rightarrow> panic + globals" where
  "initDeuce7Table slowRankToPacked g =
     (if deuce7TableInit g then Inr g
      else case build_table slowRankToPacked of
             Inl p \<Rightarrow> Inl p
           | Inr table \<Rightarrow> Inr \<lparr>deuce7RootTable = Some table, deuce7TableInit = True\<rparr>)"

text \<open>
  The hand is a \<open>*[5]Card\<close> in Go, a pointer to an array of exactly five cards; here
  it is the list of its cards, so \<open>Eval27Fast\<close>, \<open>Eval27\<close> and \<open>Compare27\<close> are meant on
  lists of length 5.
\<close>

definition Eval27Fast :: "packing \<Rightarrow> globals \<Rightarrow> Card list \<Rightarrow> panic + (int16 \<times> globals)" where
  "Eval27Fast slowRankToPacked g hand =
     (case (if deuce7RootTable g = None then initDeuce7Table slowRankToPacked g else Inr g) of
        Inl p \<Rightarrow> Inl p
      | Inr g' \<Rightarrow>
          (let sortedHand = SortCards hand; idx = perfectHash sortedHand in
           case deuce7RootTable g' of
             None \<Rightarrow> Inl IndexOutOfRange
           | Some table \<Rightarrow>
               if idx < length table then Inr (table ! idx, g') else Inl IndexOutOfRange))"

definition Eval27 :: "packing \<Rightarrow> globals \<Rightarrow> Card list \<Rightarrow> panic + (int16 \<times> globals)" where
  "Eval27 slowRankToPacked g hand =
     (if deuce7RootTable g \<noteq> None then Eval27Fast slowRankToPacked g hand
      else case evalSlow27 hand True False of
             Inl p \<Rightarrow> Inl p
           | Inr (Inl e) \<Rightarrow> Inr (0, g)
           | Inr (Inr ev) \<Rightarrow> Inr (slowRankToPacked ev, g))"

definition Compare27 :: "packing \<Rightarrow> globals \<Rightarrow> Card list \<Rightarrow> Card list \<Rightarrow> panic + (int \<times> globals)" where
  "Compare27 slowRankToPacked g hand1 hand2 =
     (case Eval27 slowRankToPacked g hand1 of
        Inl p \<Rightarrow> Inl p
      | Inr (score1, g1) \<Rightarrow>
          (case Eval27 slowRankToPacked g1 hand2 of
             Inl p \<Rightarrow> Inl p
           | Inr (score2, g2) \<Rightarrow> Inr (sint score1 - sint score2, g2)))"


section \<open>Auxiliary definitions for the properties\<close>

text \<open>The ascending lists of \<open>k\<close> numbers from \<open>lo\<close> up to \<open>hi - 1\<close>, in
  lexicographic order.\<close>

primrec asc :: "nat \<Rightarrow> nat \<Rightarrow> nat \<Rightarrow> nat list list" where
  "asc 0 lo hi = [[]]"
| "asc (Suc k) lo hi = concat (map (\<lambda>i. map ((#) i) (asc k (i + 1) hi)) [lo..<hi])"

text \<open>The index tuples \<open>(i, j, k, l, m)\<close> in the order in which the five nested loops
  of \<open>initDeuce7Table\<close> reach them.\<close>

definition all_hands :: "nat list list" where
  "all_hands =
     [[i, j, k, l, m]. i \<leftarrow> [0..<52], j \<leftarrow> [i + 1..<52], k \<leftarrow> [j + 1..<52],
                       l \<leftarrow> [k + 1..<52], m \<leftarrow> [l + 1..<52]]"

text \<open>A packing for the examples: quad Kings with a Queen get the score 2, every other
  classification the score 1.\<close>

definition example_packing :: packing where
  "example_packing ev = (if ev = EvalScore5 7 11 10 0 0 0 then 2 else 1)"

text \<open>The slot in which the first pass counts a card, and the slot in which the second
  pass counts it.\<close>

definition first_slot :: "Card \<Rightarrow> nat" where
  "first_slot c = ((if rank_of c = 1 then 14 else rank_of c) + 11) mod 13"

definition second_slot :: "Card \<Rightarrow> nat" where
  "second_slot c = (if rank_of c = 1 then 12 else rank_of c - 1)"

text \<open>\<open>counted rs s\<close>: the counters of \<open>s\<close> are what counting the slots \<open>rs\<close>, one after
  the other, leaves in them.\<close>

definition counted :: "nat list \<Rightarrow> slow_state \<Rightarrow> bool" where
  "counted rs s \<longleftrightarrow>
     length (ranks s) = 13 \<and> length (dupes s) = 6 \<and> length (rankBits s) = 6 \<and>
     (\<forall>r \<in> set rs. r < 13) \<and>
     (\<forall>r < 13. ranks s ! r = count_list rs r) \<and>
     (\<forall>k < 6. dupes s ! k = int (count_list (ranks s) k) - (if k = 0 then 13 else 0)) \<and>
     (\<forall>k < 6. \<forall>n. bit (rankBits s ! k) n \<longleftrightarrow> n < 13 \<and> k < ranks s ! n)"

text \<open>Whether the second pass finds an Ace, and the slot in which the counters that
  reach the cascade have counted a card of the hand \<open>c\<close>.\<close>

definition has_ace :: "Card list \<Rightarrow> bool" where
  "has_ace c = list_ex (\<lambda>ci. rank_of ci = 1) c"

definition final_slot :: "Card list \<Rightarrow> Card \<Rightarrow> nat" where
  "final_slot c = (if has_ace c then second_slot else first_slot)"

text \<open>
  Runs of buckets.  For cards \<open>4 \<le> i < j < k < l\<close> the sorted hands of
  \<open>(i, j, k, l, m)\<close> with \<open>l < m < 52\<close> hash to the consecutive buckets
  \<open>(m + run_base i j k l) mod 7462\<close>.  A run \<open>(i, j, k, l, w)\<close> stands for these
  buckets, read after \<open>w\<close> wraps around 7462.  \<open>chain pos runs\<close> checks that the runs,
  taken in order, leave no bucket from \<open>pos\<close> on uncovered.
\<close>

definition run_base :: "nat \<Rightarrow> nat \<Rightarrow> nat \<Rightarrow> nat \<Rightarrow> nat" where
  "run_base i j k l = (53 * l + 2809 * k + 148877 * j + 7890481 * i) mod 7462"

fun chain :: "nat \<Rightarrow> (nat \<times> nat \<times> nat \<times> nat \<times> nat) list \<Rightarrow> bool" where
  "chain pos [] \<longleftrightarrow> 7462 \<le> pos"
| "chain pos ((i, j, k, l, w) # runs) \<longleftrightarrow>
     4 \<le> i \<and> i < j \<and> j < k \<and> k < l \<and> l < 51 \<and>
     run_base i j k l + l + 1 \<le> pos + 7462 * w \<and>
     chain (max pos (run_base i j k l + 52 - 7462 * w)) runs"

definition cover_runs :: "(nat \<times> nat \<times> nat \<times> nat \<times> nat) list" where
  "cover_runs =
     [
      (6, 8, 10, 13, 1), (6, 11, 13, 16, 0), (6, 9, 10, 21, 0), (10, 12, 14, 15, 0), (6, 14,
      16, 20, 0), (4, 6, 12, 15, 0), (5, 7, 11, 16, 0), (7, 11, 12, 13, 0), (7, 14, 15, 16,
      0), (7, 8, 9, 12, 0), (7, 11, 12, 15, 0), (4, 9, 15, 21, 0), (5, 6, 11, 13, 0), (5, 9,
      14, 16, 0), (10, 11, 14, 15, 0), (6, 13, 16, 20, 0), (4, 5, 12, 15, 0), (7, 8, 9, 17,
      0), (5, 9, 14, 19, 0), (10, 11, 14, 18, 0), (11, 12, 13, 19, 0), (5, 12, 17, 23, 0), (7,
      16, 18, 20, 0), (4, 12, 13, 14, 0), (4, 6, 7, 10, 0), (4, 9, 10, 13, 0), (4, 12, 13, 16,
      0), (4, 6, 7, 12, 0), (4, 9, 10, 15, 0), (7, 9, 12, 13, 0), (7, 12, 15, 16, 0), (8, 13,
      14, 17, 0), (4, 6, 7, 15, 0), (6, 8, 13, 15, 0), (7, 9, 12, 16, 0), (4, 5, 7, 10, 0),
      (4, 8, 10, 13, 0), (4, 11, 13, 16, 0), (4, 5, 7, 12, 0), (4, 8, 10, 15, 0), (7, 8, 12,
      13, 0), (7, 11, 15, 16, 0), (8, 12, 14, 17, 0), (5, 8, 9, 11, 0), (5, 11, 12, 14, 0),
      (7, 8, 12, 16, 0), (4, 13, 16, 17, 0), (4, 7, 10, 13, 0), (4, 10, 13, 16, 0), (9, 12,
      13, 15, 0), (5, 14, 15, 20, 0), (11, 12, 16, 20, 0), (4, 7, 10, 16, 0), (5, 8, 9, 17,
      0), (4, 5, 15, 20, 0), (4, 6, 10, 11, 0), (4, 9, 13, 14, 0), (5, 10, 12, 15, 0), (5, 8,
      9, 20, 0), (9, 11, 13, 14, 0), (5, 13, 15, 19, 0), (5, 7, 9, 15, 0), (7, 13, 18, 24, 0),
      (9, 17, 19, 21, 0), (6, 13, 14, 15, 0), (6, 7, 8, 11, 0), (6, 10, 11, 14, 0), (8, 16,
      20, 23, 0), (5, 12, 15, 17, 0), (5, 6, 9, 13, 0), (5, 9, 12, 16, 0), (10, 11, 12, 15,
      0), (6, 13, 14, 20, 0), (4, 5, 10, 15, 0), (6, 9, 11, 12, 0), (6, 12, 14, 15, 0), (10,
      11, 12, 18, 0), (4, 11, 16, 22, 0), (6, 15, 17, 19, 0), (6, 9, 11, 15, 0), (4, 10, 16,
      17, 0), (8, 9, 14, 20, 0), (10, 13, 15, 17, 0), (7, 9, 10, 11, 0), (7, 12, 13, 14, 0),
      (4, 10, 16, 20, 0), (9, 12, 16, 19, 0), (6, 8, 11, 13, 0), (6, 11, 14, 16, 0), (11, 13,
      14, 15, 0), (4, 6, 13, 14, 0), (7, 9, 10, 16, 0), (5, 10, 15, 18, 0), (10, 12, 15, 17,
      0), (7, 8, 10, 11, 0), (7, 11, 13, 14, 0), (4, 9, 16, 20, 0), (9, 11, 16, 19, 0), (6, 7,
      11, 13, 0), (6, 10, 14, 16, 0), (11, 12, 14, 15, 0), (4, 5, 13, 14, 0), (7, 8, 10, 16,
      0), (4, 13, 14, 17, 0), (4, 7, 8, 13, 0), (4, 10, 11, 16, 0), (7, 10, 13, 14, 0), (4, 8,
      16, 20, 0), (8, 14, 15, 18, 0), (4, 7, 8, 16, 0), (7, 16, 19, 21, 0), (4, 12, 14, 15,
      0), (4, 6, 8, 11, 0), (4, 9, 11, 14, 0), (4, 7, 8, 19, 0), (4, 7, 16, 18, 0), (8, 13,
      15, 16, 0), (4, 6, 8, 14, 0), (10, 13, 18, 21, 0), (7, 9, 13, 15, 0), (4, 5, 8, 9, 0),
      (4, 8, 11, 12, 0), (4, 11, 14, 15, 0), (4, 5, 8, 11, 0), (4, 8, 11, 14, 0), (9, 10, 11,
      13, 0), (9, 13, 14, 16, 0), (5, 6, 7, 14, 0), (7, 8, 13, 14, 0), (4, 6, 16, 20, 0), (8,
      12, 15, 18, 0), (5, 8, 10, 12, 0), (5, 11, 13, 15, 0), (9, 10, 11, 18, 0), (4, 13, 17,
      18, 0), (4, 7, 11, 14, 0), (5, 8, 10, 15, 0), (4, 5, 16, 18, 0), (8, 11, 15, 16, 0), (9,
      12, 14, 17, 0), (6, 8, 9, 11, 0), (6, 11, 12, 14, 0), (4, 5, 16, 21, 0), (4, 6, 11, 12,
      0), (4, 9, 14, 15, 0), (5, 10, 13, 16, 0), (10, 12, 13, 15, 0), (6, 14, 15, 20, 0), (4,
      6, 11, 15, 0), (5, 7, 10, 16, 0), (6, 8, 9, 17, 0), (4, 9, 14, 19, 0), (5, 6, 10, 11,
      0), (5, 9, 13, 14, 0), (6, 10, 12, 15, 0), (6, 8, 9, 20, 0), (10, 11, 13, 14, 0), (6,
      13, 15, 19, 0), (6, 7, 9, 15, 0), (4, 8, 14, 17, 0), (9, 10, 14, 16, 0), (10, 11, 13,
      17, 0), (7, 16, 17, 18, 0), (7, 10, 11, 14, 0), (4, 8, 14, 20, 0), (9, 10, 14, 19, 0),
      (11, 14, 15, 16, 0), (4, 7, 14, 15, 0), (7, 10, 11, 17, 0), (5, 11, 16, 19, 0), (10, 13,
      16, 18, 0), (7, 9, 11, 12, 0), (7, 12, 14, 15, 0), (4, 10, 17, 21, 0), (5, 11, 16, 22,
      0), (7, 15, 17, 19, 0), (7, 9, 11, 15, 0), (4, 5, 6, 9, 0), (4, 8, 9, 12, 0), (4, 11,
      12, 15, 0), (4, 5, 6, 11, 0), (8, 9, 10, 12, 0), (8, 12, 13, 15, 0), (4, 5, 6, 13, 0),
      (6, 7, 12, 13, 0), (6, 10, 15, 16, 0), (4, 5, 6, 15, 0), (6, 7, 12, 15, 0), (7, 8, 11,
      16, 0), (4, 13, 15, 17, 0), (4, 7, 9, 13, 0), (4, 10, 12, 16, 0), (8, 9, 10, 19, 0), (4,
      8, 17, 20, 0), (8, 14, 16, 18, 0), (5, 10, 11, 12, 0), (5, 13, 14, 15, 0), (5, 7, 8, 11,
      0), (5, 10, 11, 14, 0), (7, 16, 20, 23, 0), (4, 12, 15, 17, 0), (4, 6, 9, 13, 0), (4, 9,
      12, 16, 0), (9, 11, 12, 15, 0), (5, 13, 14, 20, 0), (8, 13, 16, 18, 0), (5, 9, 11, 12,
      0), (5, 12, 14, 15, 0), (5, 6, 8, 11, 0), (5, 9, 11, 14, 0), (5, 7, 8, 19, 0), (4, 11,
      15, 17, 0), (4, 5, 9, 13, 0), (4, 8, 12, 16, 0), (9, 10, 12, 15, 0), (5, 12, 14, 20, 0),
      (6, 9, 10, 12, 0), (6, 12, 13, 15, 0), (4, 6, 17, 22, 0), (5, 14, 17, 18, 0), (5, 8, 11,
      14, 0), (6, 9, 10, 15, 0), (4, 10, 15, 17, 0), (9, 12, 15, 16, 0), (10, 13, 14, 17, 0),
      (4, 13, 18, 21, 0), (6, 8, 10, 11, 0), (6, 11, 13, 14, 0), (4, 5, 17, 21, 0), (4, 10,
      15, 21, 0)]"

text \<open>The number by which \<open>card_less\<close> compares two cards: the rank with the Ace as 14,
  then the suit bits.\<close>

definition sort_key_of :: "Card \<Rightarrow> nat" where
  "sort_key_of c = (if rank_of c = 1 then 14 else rank_of c) * 4 + unat (c AND 3)"

section \<open>The enumeration of the five nested loops\<close>

lemma for_each_append:
  "for_each f (xs @ ys) s =
     (case for_each f xs s of Inl p \<Rightarrow> Inl p | Inr s' \<Rightarrow> for_each f ys s')"
  by (induction xs arbitrary: s) (auto split: sum.splits)

lemma for_each_concat_map:
  "for_each (\<lambda>x. for_each f (g x)) xs s = for_each f (concat (map g xs)) s"
  by (induction xs arbitrary: s) (auto simp: for_each_append split: sum.splits)

lemma for_each_single: "for_each f [x] s = f x s"
  by (auto split: sum.splits)

lemma asc5:
  "asc (Suc (Suc (Suc (Suc (Suc 0))))) lo n =
     [[i, j, k, l, m]. i \<leftarrow> [lo..<n], j \<leftarrow> [i + 1..<n], k \<leftarrow> [j + 1..<n],
                       l \<leftarrow> [k + 1..<n], m \<leftarrow> [l + 1..<n]]"
  by (simp add: map_concat comp_def del: upt_Suc)

lemma five: "(5::nat) = Suc (Suc (Suc (Suc (Suc 0))))"
  by simp

lemma all_hands_asc: "all_hands = asc 5 0 52"
  unfolding all_hands_def five asc5 ..

lemma nested_for_each:
  "for_each (\<lambda>i. for_each (\<lambda>j. for_each (\<lambda>k. for_each (\<lambda>l. for_each (\<lambda>m.
       body [of_nat i, of_nat j, of_nat k, of_nat l, of_nat m])
       [l + 1..<n]) [k + 1..<n]) [j + 1..<n]) [i + 1..<n]) [lo..<n] s =
   for_each body (map (map of_nat)
     [[i, j, k, l, m]. i \<leftarrow> [lo..<n], j \<leftarrow> [i + 1..<n], k \<leftarrow> [j + 1..<n],
                       l \<leftarrow> [k + 1..<n], m \<leftarrow> [l + 1..<n]]) s"
proof -
  have "for_each (\<lambda>i. for_each (\<lambda>j. for_each (\<lambda>k. for_each (\<lambda>l. for_each (\<lambda>m.
       body [of_nat i, of_nat j, of_nat k, of_nat l, of_nat m])
       [l + 1..<n]) [k + 1..<n]) [j + 1..<n]) [i + 1..<n]) [lo..<n] s =
    for_each (\<lambda>i. for_each (\<lambda>j. for_each (\<lambda>k. for_each (\<lambda>l. for_each (\<lambda>m.
       for_each body [[of_nat i, of_nat j, of_nat k, of_nat l, of_nat m]])
       [l + 1..<n]) [k + 1..<n]) [j + 1..<n]) [i + 1..<n]) [lo..<n] s"
    unfolding for_each_single ..
  also have "\<dots> = for_each body (map (map of_nat)
     [[i, j, k, l, m]. i \<leftarrow> [lo..<n], j \<leftarrow> [i + 1..<n], k \<leftarrow> [j + 1..<n],
                       l \<leftarrow> [k + 1..<n], m \<leftarrow> [l + 1..<n]]) s"
    unfolding for_each_concat_map
    by (simp add: map_concat comp_def del: upt_Suc)
  finally show ?thesis .
qed

lemma fill_table_for_each:
  "fill_table body s = for_each body (map (map of_nat) all_hands) s"
  unfolding fill_table_def for_range_def all_hands_def by (rule nested_for_each)


lemma distinct_concat_map:
  "distinct xs \<Longrightarrow> (\<And>x. x \<in> set xs \<Longrightarrow> distinct (f x)) \<Longrightarrow>
   (\<And>x y. x \<in> set xs \<Longrightarrow> y \<in> set xs \<Longrightarrow> x \<noteq> y \<Longrightarrow> set (f x) \<inter> set (f y) = {}) \<Longrightarrow>
   distinct (concat (map f xs))"
  by (induction xs) fastforce+

lemma asc_Cons_mem:
  "i # ys \<in> set (asc (Suc k) lo hi) \<longleftrightarrow> lo \<le> i \<and> i < hi \<and> ys \<in> set (asc k (i + 1) hi)"
  by auto

lemma asc_Nil_mem: "[] \<notin> set (asc (Suc k) lo hi)"
  by auto

lemma set_asc:
  "set (asc k lo hi) = {xs. length xs = k \<and> sorted_wrt (<) xs \<and> set xs \<subseteq> {lo..<hi}}"
proof (induction k arbitrary: lo)
  case 0
  then show ?case by auto
next
  case (Suc k)
  show ?case
  proof (rule set_eqI)
    fix xs
    show "xs \<in> set (asc (Suc k) lo hi) \<longleftrightarrow>
          xs \<in> {xs. length xs = Suc k \<and> sorted_wrt (<) xs \<and> set xs \<subseteq> {lo..<hi}}"
    proof (cases xs)
      case Nil
      then show ?thesis using asc_Nil_mem [of k lo hi] by simp
    next
      case (Cons i ys)
      have "xs \<in> set (asc (Suc k) lo hi) \<longleftrightarrow>
            lo \<le> i \<and> i < hi \<and> length ys = k \<and> sorted_wrt (<) ys \<and> set ys \<subseteq> {i + 1..<hi}"
        unfolding Cons asc_Cons_mem Suc.IH by simp
      also have "\<dots> \<longleftrightarrow> length xs = Suc k \<and> sorted_wrt (<) xs \<and> set xs \<subseteq> {lo..<hi}"
        unfolding Cons by (auto simp: Suc_le_eq)
      finally show ?thesis by simp
    qed
  qed
qed

lemma distinct_asc: "distinct (asc k lo hi)"
proof (induction k arbitrary: lo)
  case 0
  then show ?case by simp
next
  case (Suc k)
  show ?case
    unfolding asc.simps
    by (rule distinct_concat_map) (auto simp: distinct_map Suc.IH)
qed

lemma sum_list_choose:
  "sum_list (map (\<lambda>i. (hi - (i + 1)) choose k) [lo..<hi]) = (hi - lo) choose Suc k"
proof (induction "hi - lo" arbitrary: lo)
  case 0
  then show ?case by simp
next
  case (Suc n)
  then have lt: "lo < hi" and n: "hi - (lo + 1) = n" by linarith+
  have "sum_list (map (\<lambda>i. (hi - (i + 1)) choose k) [lo..<hi]) =
        ((hi - (lo + 1)) choose k) + sum_list (map (\<lambda>i. (hi - (i + 1)) choose k) [lo + 1..<hi])"
    using lt by (simp add: upt_conv_Cons)
  also have "\<dots> = (n choose k) + (n choose Suc k)"
    using Suc.hyps(1) [of "lo + 1"] n by simp
  also have "\<dots> = (hi - lo) choose Suc k"
    using Suc.hyps(2) [symmetric] by simp
  finally show ?case .
qed

lemma length_asc: "length (asc k lo hi) = (hi - lo) choose k"
proof (induction k arbitrary: lo)
  case 0
  then show ?case by simp
next
  case (Suc k)
  have "length (asc (Suc k) lo hi) = sum_list (map (\<lambda>i. (hi - (i + 1)) choose k) [lo..<hi])"
    by (simp add: length_concat comp_def Suc.IH del: upt_Suc)
  then show ?case by (simp only: sum_list_choose)
qed

lemma choose_step:
  assumes "n choose k = c" "m = Suc n" "j = Suc k" "m * c = d * j"
  shows "m choose j = (d::nat)"
proof -
  have "(m choose j) * j = d * j"
    using Suc_times_binomial_eq [of n k] assms by (simp only:)
  moreover have "0 < j" using assms by simp
  ultimately show ?thesis by simp
qed

lemma choose_52_5: "(52::nat) choose 5 = 2598960"
proof -
  have c1: "(48::nat) choose 1 = 48" by simp
  have c2: "(49::nat) choose 2 = 1176"
    by (rule choose_step [OF c1]) simp_all
  have c3: "(50::nat) choose 3 = 19600"
    by (rule choose_step [OF c2]) simp_all
  have c4: "(51::nat) choose 4 = 249900"
    by (rule choose_step [OF c3]) simp_all
  show ?thesis
    by (rule choose_step [OF c4]) simp_all
qed

lemma asc_empty: "hi - lo < k \<Longrightarrow> asc k lo hi = []"
  using length_asc [of k lo hi] by (simp add: binomial_eq_0)

lemma last_asc: "k \<le> hi - lo \<Longrightarrow> asc k lo hi \<noteq> [] \<and> last (asc k lo hi) = [hi - k..<hi]"
proof (induction k arbitrary: lo)
  case 0
  then show ?case by simp
next
  case (Suc k)
  define p where "p = hi - Suc k"
  define f where "f = (\<lambda>i. map ((#) i) (asc k (i + 1) hi))"
  have p: "lo \<le> p" "p < hi" "hi - (p + 1) = k" "p + 1 = hi - k"
    using Suc.prems by (auto simp: p_def)
  have "[lo..<p + (hi - p)] = [lo..<p] @ [p..<p + (hi - p)]"
    using p by (intro upt_add_eq_append) simp
  then have split: "[lo..<hi] = [lo..<p] @ p # [p + 1..<hi]"
    using p by (simp add: upt_conv_Cons)
  have tail: "concat (map f [p + 1..<hi]) = []"
    using p by (auto simp: f_def intro!: asc_empty)
  have mid: "asc k (p + 1) hi \<noteq> [] \<and> last (asc k (p + 1) hi) = [hi - k..<hi]"
    using Suc.IH [of "p + 1"] p by simp
  have "asc (Suc k) lo hi = concat (map f [lo..<p]) @ f p"
    unfolding asc.simps f_def [symmetric] split using tail by simp
  moreover have "f p \<noteq> []" "last (f p) = p # [hi - k..<hi]"
    using mid by (auto simp: f_def last_map)
  moreover have "p # [hi - k..<hi] = [hi - Suc k..<hi]"
    using p by (simp add: p_def upt_conv_Cons)
  ultimately show ?case by simp
qed

lemma upt_47_52: "[47..<52] = [47, 48, 49, 50, 51::nat]"
  by (simp add: upt_conv_Cons)

lemma last_all_hands: "all_hands \<noteq> [] \<and> last all_hands = [47, 48, 49, 50, 51]"
proof -
  have "(5::nat) \<le> 52 - 0" by simp
  from last_asc [OF this]
  have A: "asc 5 0 52 \<noteq> [] \<and> last (asc 5 0 52) = [52 - 5..<52]" .
  have B: "[52 - 5..<52] = [47, 48, 49, 50, 51::nat]"
    using upt_47_52 by simp
  show ?thesis unfolding all_hands_asc by (rule A [unfolded B])
qed

section \<open>Single hands\<close>

text \<open>
  C4.  The hand DA H2 C3 S4 H5 (cards 1, 6, 8, 15, 18) is not a straight for
  \<open>evalSlow27\<close>: no straight top is recorded, and the result is category 0 (no pair)
  with the Ace (slot 12) as the first tie-break rank.  The same holds for the hand in
  the order \<open>SortCards\<close> gives it.
\<close>

theorem wheel_not_straight:
  "evalSlow27 [1, 6, 8, 15, 18] True False = Inr (Inr (EvalScore5 0 12 4 3 2 1)) \<and>
   evalSlow27 (SortCards [1, 6, 8, 15, 18]) True False = Inr (Inr (EvalScore5 0 12 4 3 2 1)) \<and>
   map_sum id str8top (count_passes [1, 6, 8, 15, 18]) = Inr 0"
  by code_simp

text \<open>
  C3.  The hand DK H3 C4 S5 CA (cards 49, 10, 12, 19, 0) has five different ranks, yet
  after the second pass \<open>dupes[1]\<close> is 3 and \<open>dupes[2]\<close> is 1: the King is counted in
  slot \<open>cr - 1 = 12\<close>, the slot of the Ace.  The hand is classified as one pair.
\<close>

theorem ace_king_counted_as_pair:
  "map_sum id dupes (count_passes [49, 10, 12, 19, 0]) = Inr [- 4, 3, 1, 0, 0, 0] \<and>
   evalSlow27 [49, 10, 12, 19, 0] True False = Inr (Inr (EvalScore5 1 12 4 3 2 0))"
  by code_simp

text \<open>
  C5.  The hand CA DK HQ SJ CT (cards 0, 49, 46, 43, 36) is not a flush and its ranks are
  Ten to Ace, yet no straight top is recorded (its window is \<open>idx = 0\<close>, which the test
  \<open>idx >= 5\<close> rejects) and the hand is classified as one pair, not as a straight.
\<close>

theorem broadway_not_straight:
  "evalSlow27 [0, 49, 46, 43, 36] True False = Inr (Inr (EvalScore5 1 12 11 10 9 0)) \<and>
   map_sum id str8top (count_passes [0, 49, 46, 43, 36]) = Inr 0"
  by code_simp

lemma evalSlow27_ace_king_543:
  "evalSlow27 [0, 49, 18, 15, 8] True False = Inr (Inr (EvalScore5 1 12 4 3 2 0))"
  by code_simp

lemma evalSlow27_ace_ace_543:
  "evalSlow27 [0, 1, 18, 15, 8] True False = Inr (Inr (EvalScore5 1 12 4 3 2 0))"
  by code_simp

text \<open>
  C6.  Before the table is built, \<open>Eval27\<close> gives the unpaired, unconnected, non-flush
  hand CA DK H5 S4 C3 the same score as the paired hand CA DA H5 S4 C3, whatever the
  packing table: the paired hand does not score strictly higher.
\<close>

theorem ace_king_scores_as_pair_of_aces:
  "Eval27 slowRankToPacked initial_globals [0, 49, 18, 15, 8] =
   Eval27 slowRankToPacked initial_globals [0, 1, 18, 15, 8]"
  by (simp add: Eval27_def initial_globals_def evalSlow27_ace_king_543 evalSlow27_ace_ace_543)

lemma perfectHash_quad_kings: "perfectHash (SortCards [47, 48, 49, 50, 51]) = 2195"
  by code_simp

lemma evalSlow27_quad_kings:
  "evalSlow27 (SortCards [47, 48, 49, 50, 51]) True False = Inr (Inr (EvalScore5 7 11 10 0 0 0))"
  by code_simp

lemma perfectHash_eight_high: "perfectHash (SortCards [4, 10, 21, 26, 28]) = 2195"
  by code_simp

lemma evalSlow27_eight_high:
  "evalSlow27 [4, 10, 21, 26, 28] True False = Inr (Inr (EvalScore5 0 6 5 4 1 0))"
  by code_simp

text \<open>
  C2.  \<open>perfectHash\<close> sends the sorted hands of 8C 7H 6D 3H 2C (no pair) and of
  KS KH KD KC QS (four of a kind) to the same bucket, and the sorted hands
  7H 5C 4C 3C 2C and 7S 5C 4C 3C 2C, which \<open>evalSlow27\<close> classifies alike, to different
  buckets.
\<close>

theorem perfectHash_not_perfect:
  "perfectHash (SortCards [4, 10, 21, 26, 28]) = perfectHash (SortCards [47, 48, 49, 50, 51]) \<and>
   evalSlow27 (SortCards [4, 10, 21, 26, 28]) True False = Inr (Inr (EvalScore5 0 6 5 4 1 0)) \<and>
   evalSlow27 (SortCards [47, 48, 49, 50, 51]) True False = Inr (Inr (EvalScore5 7 11 10 0 0 0)) \<and>
   SortCards [26, 16, 12, 8, 4] = [26, 16, 12, 8, 4] \<and>
   SortCards [27, 16, 12, 8, 4] = [27, 16, 12, 8, 4] \<and>
   evalSlow27 [26, 16, 12, 8, 4] True False = evalSlow27 [27, 16, 12, 8, 4] True False \<and>
   perfectHash [26, 16, 12, 8, 4] \<noteq> perfectHash [27, 16, 12, 8, 4]"
  by code_simp

section \<open>The table under construction\<close>

lemma perfectHash_less: "perfectHash cards < 7462"
proof -
  have "perfectHash_loop 0 cards 0 mod 7462 < (7462 :: 32 word)"
    by (rule word_mod_less_divisor) simp
  then have "unat (perfectHash_loop 0 cards 0 mod 7462) < unat (7462 :: 32 word)"
    by (simp only: word_less_nat_alt)
  then show ?thesis by (simp add: perfectHash_def)
qed

lemma store_hand_Inr:
  assumes "store_hand slowRankToPacked cards table = Inr table'"
  shows "\<exists>ev. evalSlow27 (SortCards cards) True False = Inr (Inr ev) \<and>
              perfectHash (SortCards cards) < length table \<and>
              slowRankToPacked ev \<noteq> 0 \<and>
              table' = table[perfectHash (SortCards cards) := slowRankToPacked ev]"
  using assms by (auto simp: store_hand_def Let_def split: sum.splits if_splits)

lemma store_hand_length:
  "store_hand slowRankToPacked cards table = Inr table' \<Longrightarrow> length table' = length table"
  by (auto dest: store_hand_Inr)

lemma store_hand_nonzero:
  assumes "store_hand slowRankToPacked cards table = Inr table'" "0 \<notin> set table"
  shows "0 \<notin> set table'"
proof -
  obtain ev where "slowRankToPacked ev \<noteq> 0"
    and "table' = table[perfectHash (SortCards cards) := slowRankToPacked ev]"
    using store_hand_Inr [OF assms(1)] by blast
  then show ?thesis
    using assms(2) set_update_subset_insert [of table "perfectHash (SortCards cards)" "slowRankToPacked ev"]
    by auto
qed

lemma for_each_store_hand_invariant:
  "for_each (store_hand slowRankToPacked) hands table = Inr table' \<Longrightarrow> 0 \<notin> set table \<Longrightarrow>
   length table' = length table \<and> 0 \<notin> set table'"
proof (induction hands arbitrary: table)
  case Nil
  then show ?case by simp
next
  case (Cons h hands)
  from Cons.prems(1) obtain t1 where
    h: "store_hand slowRankToPacked h table = Inr t1" and
    rest: "for_each (store_hand slowRankToPacked) hands t1 = Inr table'"
    by (auto split: sum.splits)
  have "0 \<notin> set t1" using store_hand_nonzero [OF h Cons.prems(2)] .
  from Cons.IH [OF rest this] store_hand_length [OF h] show ?case by simp
qed

lemma verify_filled_Inr: "verify_filled i table = Inr u \<Longrightarrow> - 1 \<notin> set table"
  by (induction table arbitrary: i) (auto split: if_splits)

lemma verify_filled_ok: "- 1 \<notin> set table \<Longrightarrow> verify_filled i table = Inr ()"
  by (induction table arbitrary: i) auto

lemma build_table_Inr:
  assumes "build_table slowRankToPacked = Inr table"
  shows "for_each (store_hand slowRankToPacked) (map (map of_nat) all_hands)
           (replicate 7462 (- 1)) = Inr table"
    and "length table = 7462" and "- 1 \<notin> set table" and "0 \<notin> set table"
proof -
  from assms obtain u where
    fill: "fill_table (store_hand slowRankToPacked) (replicate 7462 (- 1)) = Inr table" and
    ver: "verify_filled 0 table = Inr u"
    by (auto simp: build_table_def split: sum.splits)
  show loop: "for_each (store_hand slowRankToPacked) (map (map of_nat) all_hands)
           (replicate 7462 (- 1)) = Inr table"
    using fill by (simp only: fill_table_for_each)
  have "(0 :: int16) \<notin> set (replicate 7462 (- 1))" by simp
  from for_each_store_hand_invariant [OF loop this]
  show "length table = 7462" and "0 \<notin> set table" by simp_all
  show "- 1 \<notin> set table" using ver by (rule verify_filled_Inr)
qed

lemma initDeuce7Table_Inr:
  assumes "initDeuce7Table slowRankToPacked initial_globals = Inr g"
  shows "\<exists>table. build_table slowRankToPacked = Inr table \<and>
           g = \<lparr>deuce7RootTable = Some table, deuce7TableInit = True\<rparr>"
  using assms by (auto simp: initDeuce7Table_def initial_globals_def split: sum.splits)

lemma Eval27Fast_built:
  assumes "deuce7RootTable g = Some table" "length table = 7462"
  shows "Eval27Fast slowRankToPacked g hand = Inr (table ! perfectHash (SortCards hand), g)"
  using assms perfectHash_less [of "SortCards hand"] by (simp add: Eval27Fast_def Let_def)

lemma Eval27Fast_initial:
  assumes "initDeuce7Table slowRankToPacked initial_globals = Inr g"
  shows "Eval27Fast slowRankToPacked initial_globals hand = Eval27Fast slowRankToPacked g hand"
proof -
  obtain table where t: "build_table slowRankToPacked = Inr table"
    and g: "g = \<lparr>deuce7RootTable = Some table, deuce7TableInit = True\<rparr>"
    using initDeuce7Table_Inr [OF assms] by blast
  show ?thesis
    using assms by (simp add: Eval27Fast_def g initial_globals_def)
qed

lemma for_each_store_hand_last:
  assumes "for_each (store_hand slowRankToPacked) (hands @ [h]) table = Inr table'"
  shows "\<exists>ev. evalSlow27 (SortCards h) True False = Inr (Inr ev) \<and>
              table' ! perfectHash (SortCards h) = slowRankToPacked ev"
proof -
  from assms obtain t1 where
    "for_each (store_hand slowRankToPacked) hands table = Inr t1" and
    h: "store_hand slowRankToPacked h t1 = Inr table'"
    by (auto simp: for_each_append split: sum.splits)
  from store_hand_Inr [OF h] show ?thesis by auto
qed

section \<open>The rank counters\<close>

lemma count_list_replicate: "count_list (replicate n x) y = (if x = y then n else 0)"
  by (induction n) auto

lemma count_list_update:
  "i < length xs \<Longrightarrow>
   count_list (xs[i := v]) j + (if xs ! i = j then 1 else 0) =
   count_list xs j + (if v = j then 1 else 0)"
proof (induction xs arbitrary: i)
  case Nil
  then show ?case by simp
next
  case (Cons x xs)
  show ?case
  proof (cases i)
    case 0
    then show ?thesis by auto
  next
    case (Suc n)
    then show ?thesis using Cons.IH [of n] Cons.prems by auto
  qed
qed

lemma counted_cong:
  "ranks s' = ranks s \<Longrightarrow> dupes s' = dupes s \<Longrightarrow> rankBits s' = rankBits s \<Longrightarrow>
   counted rs s' = counted rs s"
  by (simp add: counted_def)

lemma counted_zero:
  assumes "ranks s = replicate 13 0" "dupes s = replicate 6 0" "rankBits s = replicate 6 0"
  shows "counted [] s"
  unfolding counted_def using assms by (auto simp: count_list_replicate)

lemma counted_step:
  assumes c: "counted rs s" and r: "r < 13" and len: "length rs < 5"
  shows "\<exists>s'. count_rank r s = Inr s' \<and> counted (rs @ [r]) s' \<and>
               str8s s' = str8s s \<and> str8top s' = str8top s"
proof -
  define k where "k = ranks s ! r"
  have lens: "length (ranks s) = 13" "length (dupes s) = 6" "length (rankBits s) = 6"
    using c by (simp_all add: counted_def)
  have k_count: "k = count_list rs r" using c r by (simp add: counted_def k_def)
  have "count_list rs r \<le> length rs" by (rule count_le_length)
  then have k5: "k < 5" using len k_count by simp
  define rb where "rb = (rankBits s)[k := rankBits s ! k OR push_bit r 1]"
  define rk where "rk = (ranks s)[r := k + 1]"
  define d2 where "d2 = ((dupes s)[k + 1 := dupes s ! (k + 1) + 1])[k := dupes s ! k - 1]"
  define s' where "s' = s\<lparr>rankBits := rb, ranks := rk, dupes := d2\<rparr>"
  have step: "count_rank r s = Inr s'"
    using r k5 lens
    by (simp add: count_rank_def Let_def k_def [symmetric] s'_def rb_def rk_def d2_def)
  have rk_nth: "\<And>n. n < 13 \<Longrightarrow> rk ! n = (if n = r then k + 1 else ranks s ! n)"
    using lens r by (auto simp: rk_def)
  have ranks_ok: "\<forall>n<13. rk ! n = count_list (rs @ [r]) n"
    using c k_count by (auto simp: rk_nth counted_def)
  have cnt: "\<And>j. count_list rk j + (if k = j then 1 else 0) =
                  count_list (ranks s) j + (if k + 1 = j then 1 else 0)"
    using count_list_update [of r "ranks s" "k + 1"] lens r by (simp add: rk_def k_def)
  have dupes_ok: "\<forall>j<6. d2 ! j = int (count_list rk j) - (if j = 0 then 13 else 0)"
  proof (intro allI impI)
    fix j :: nat assume j: "j < 6"
    have old: "dupes s ! j = int (count_list (ranks s) j) - (if j = 0 then 13 else 0)"
      using c j by (simp add: counted_def)
    have "d2 ! j = dupes s ! j + (if j = k + 1 then 1 else 0) - (if j = k then 1 else 0)"
      using j lens k5 by (auto simp: d2_def)
    then show "d2 ! j = int (count_list rk j) - (if j = 0 then 13 else 0)"
      using old cnt [of j] by (auto split: if_splits)
  qed
  have bits_ok: "\<forall>j<6. \<forall>n. bit (rb ! j) n \<longleftrightarrow> n < 13 \<and> j < rk ! n"
  proof (intro allI impI)
    fix j n :: nat assume j: "j < 6"
    have old: "bit (rankBits s ! j) n \<longleftrightarrow> n < 13 \<and> j < ranks s ! n"
      using c j by (simp add: counted_def)
    have new_bit: "bit (push_bit r 1 :: 16 word) n \<longleftrightarrow> n = r"
      using r by (auto simp: bit_exp_iff)
    have "rb ! j = (if j = k then rankBits s ! k OR push_bit r 1 else rankBits s ! j)"
      using j lens by (auto simp: rb_def)
    then show "bit (rb ! j) n \<longleftrightarrow> n < 13 \<and> j < rk ! n"
      using old new_bit r rk_nth [of n] by (auto simp: bit_or_iff k_def split: if_splits)
  qed
  have "counted (rs @ [r]) s'"
    unfolding counted_def
    using lens c r ranks_ok dupes_ok bits_ok
    by (simp add: s'_def rk_def rb_def d2_def counted_def)
  then show ?thesis using step by (auto simp: s'_def)
qed

section \<open>The two passes of the slow evaluator\<close>

lemma rank_of_unat: "rank_of c = (unat c div 4) mod 16 + 1"
proof -
  have "drop_bit 2 c AND 15 = take_bit 4 (drop_bit 2 c)"
    by (simp add: take_bit_eq_mask mask_eq_exp_minus_1)
  then have "unat (drop_bit 2 c AND 15) = take_bit 4 (drop_bit 2 (unat c))"
    by (simp add: unsigned_take_bit_eq unat_drop_bit_eq)
  then show ?thesis by (simp add: rank_of_def take_bit_eq_mod drop_bit_eq_div)
qed

lemma unat_suit_bits: "unat (c AND 3 :: Card) = unat c mod 4"
proof -
  have "c AND 3 = take_bit 2 c"
    by (simp add: take_bit_eq_mask mask_eq_exp_minus_1)
  then have "unat (c AND 3) = take_bit 2 (unat c)"
    by (simp add: unsigned_take_bit_eq)
  then show ?thesis by (simp add: take_bit_eq_mod)
qed

lemma Valid_unat: "Valid c \<longleftrightarrow> unat c < 52"
  by (simp add: Valid_def word_less_nat_alt)

lemma rank_of_Valid: "Valid c \<Longrightarrow> rank_of c = unat c div 4 + 1 \<and> rank_of c \<le> 13"
  by (auto simp: rank_of_unat Valid_unat)

lemma first_slot_less: "first_slot c < 13"
  by (simp add: first_slot_def)

lemma second_slot_less: "Valid c \<Longrightarrow> second_slot c < 13"
  using rank_of_Valid [of c] by (auto simp: second_slot_def)

lemma mark_window_counters:
  "\<exists>s'. mark_window cr i s = Inr s' \<and>
        ranks s' = ranks s \<and> dupes s' = dupes s \<and> rankBits s' = rankBits s"
  by (simp add: mark_window_def Let_def)

lemma mark_windows_counters:
  "\<exists>s'. for_each (mark_window cr) xs s = Inr s' \<and>
        ranks s' = ranks s \<and> dupes s' = dupes s \<and> rankBits s' = rankBits s"
proof (induction xs arbitrary: s)
  case Nil
  then show ?case by simp
next
  case (Cons i xs)
  obtain s1 where s1: "mark_window cr i s = Inr s1" "ranks s1 = ranks s" "dupes s1 = dupes s"
      "rankBits s1 = rankBits s"
    using mark_window_counters by blast
  from Cons.IH [of s1] s1 show ?case by auto
qed

lemma first_pass_card_counted:
  assumes "counted rs s" "length rs < 5"
  shows "\<exists>s'. first_pass_card c s = Inr s' \<and> counted (rs @ [first_slot c]) s'"
proof -
  obtain s1 where s1: "count_rank (first_slot c) s = Inr s1" "counted (rs @ [first_slot c]) s1"
    using counted_step [OF assms(1) first_slot_less assms(2)] by blast
  obtain s2 where s2: "for_each (mark_window (if rank_of c = 1 then 14 else rank_of c)) [0..<5] s1 = Inr s2"
      "ranks s2 = ranks s1" "dupes s2 = dupes s1" "rankBits s2 = rankBits s1"
    using mark_windows_counters by blast
  have "first_pass_card c s = Inr s2"
    using s1(1) s2(1) by (simp add: first_pass_card_def Let_def first_slot_def for_range_def)
  moreover have "counted (rs @ [first_slot c]) s2"
    using s1(2) counted_cong [OF s2(2,3,4)] by simp
  ultimately show ?thesis by blast
qed

lemma first_pass_counted:
  "counted rs s \<Longrightarrow> length rs + length cs \<le> 5 \<Longrightarrow>
   \<exists>s'. for_each first_pass_card cs s = Inr s' \<and> counted (rs @ map first_slot cs) s'"
proof (induction cs arbitrary: rs s)
  case Nil
  then show ?case by simp
next
  case (Cons c cs)
  then have "length rs < 5" by simp
  from first_pass_card_counted [OF Cons.prems(1) this]
  obtain s1 where s1: "first_pass_card c s = Inr s1" "counted (rs @ [first_slot c]) s1"
    by blast
  have "length (rs @ [first_slot c]) + length cs \<le> 5" using Cons.prems(2) by simp
  from Cons.IH [OF s1(2) this] s1(1) show ?case by auto
qed

lemma recount_counted:
  "counted rs s \<Longrightarrow> length rs + length cs \<le> 5 \<Longrightarrow> \<forall>c \<in> set cs. Valid c \<Longrightarrow>
   \<exists>s'. for_each recount_card cs s = Inr s' \<and> counted (rs @ map second_slot cs) s' \<and>
        str8top s' = str8top s"
proof (induction cs arbitrary: rs s)
  case Nil
  then show ?case by simp
next
  case (Cons c cs)
  then have "length rs < 5" and "second_slot c < 13"
    by (simp_all add: second_slot_less)
  from counted_step [OF Cons.prems(1) this(2) this(1)]
  obtain s1 where s1: "count_rank (second_slot c) s = Inr s1" "counted (rs @ [second_slot c]) s1"
      "str8top s1 = str8top s"
    by blast
  have step: "recount_card c s = Inr s1"
    using s1(1) by (auto simp: recount_card_def second_slot_def Let_def split: if_splits)
  have "length (rs @ [second_slot c]) + length cs \<le> 5" "\<forall>c \<in> set cs. Valid c"
    using Cons.prems by simp_all
  from Cons.IH [OF s1(2) this] step s1(3) show ?case by auto
qed

lemma second_pass_eq:
  "second_pass outer c s =
     (if has_ace outer
      then for_each recount_card c
             (s\<lparr>ranks := replicate 13 0, dupes := replicate 6 0, rankBits := replicate 6 0\<rparr>)
      else Inr s)"
  by (induction outer) (auto simp: has_ace_def)

lemma count_passes_counted:
  assumes "length c = 5" "\<forall>x \<in> set c. Valid x"
  shows "\<exists>s. count_passes c = Inr s \<and> counted (map (final_slot c) c) s"
proof -
  have "counted [] slow_init"
    by (rule counted_zero) (simp_all add: slow_init_def)
  from first_pass_counted [OF this, of c] assms(1)
  obtain s1 where s1: "for_each first_pass_card c slow_init = Inr s1" "counted (map first_slot c) s1"
    by auto
  show ?thesis
  proof (cases "has_ace c")
    case False
    then show ?thesis using s1 by (simp add: count_passes_def second_pass_eq final_slot_def)
  next
    case True
    define s0 where
      "s0 = s1\<lparr>ranks := replicate 13 0, dupes := replicate 6 0, rankBits := replicate 6 0\<rparr>"
    have "counted [] s0" by (rule counted_zero) (simp_all add: s0_def)
    from recount_counted [OF this, of c] assms
    obtain s2 where "for_each recount_card c s0 = Inr s2" "counted (map second_slot c) s2"
      by auto
    then show ?thesis
      using s1 True by (simp add: count_passes_def second_pass_eq final_slot_def s0_def)
  qed
qed

section \<open>The cascade of category tests is exhaustive\<close>

lemma sum_list_bump:
  "x < n \<Longrightarrow>
   sum_list (map (\<lambda>r. if x = r then f r + 1 else f r) [0..<n]) = sum_list (map f [0..<n]) + (1::nat)"
proof -
  assume x: "x < n"
  have "sum_list (map (\<lambda>r. if x = r then f r + 1 else f r) [0..<n]) =
        (\<Sum>r \<in> {0..<n}. f r + (if r = x then 1 else 0))"
    by (auto simp: interv_sum_list_conv_sum_set_nat intro!: sum.cong)
  also have "\<dots> = (\<Sum>r \<in> {0..<n}. f r) + (\<Sum>r \<in> {0..<n}. if r = x then 1 else 0)"
    by (rule sum.distrib)
  also have "(\<Sum>r \<in> {0..<n}. if r = x then 1 else 0) = (1::nat)"
    using x by (simp add: sum.delta)
  finally show ?thesis by (simp add: interv_sum_list_conv_sum_set_nat)
qed

lemma sum_list_count_list:
  "\<forall>r \<in> set rs. r < n \<Longrightarrow> sum_list (map (count_list rs) [0..<n]) = length rs"
proof (induction rs)
  case Nil
  then show ?case by simp
next
  case (Cons x rs)
  have "map (count_list (x # rs)) [0..<n] =
        map (\<lambda>r. if x = r then count_list rs r + 1 else count_list rs r) [0..<n]"
    by simp
  then show ?case using Cons sum_list_bump [of x n "count_list rs"] by simp
qed

lemma sum_list_by_multiplicity:
  "\<forall>x \<in> set xs. x \<le> 5 \<Longrightarrow>
   sum_list xs = count_list xs 1 + 2 * count_list xs 2 + 3 * count_list xs 3 +
                 4 * count_list xs 4 + 5 * count_list xs (5::nat)"
proof (induction xs)
  case Nil
  then show ?case by simp
next
  case (Cons x xs)
  then have "x = 0 \<or> x = 1 \<or> x = 2 \<or> x = 3 \<or> x = 4 \<or> x = 5" by auto
  then show ?case using Cons by auto
qed

lemma counted_ranks: "counted rs s \<Longrightarrow> ranks s = map (count_list rs) [0..<13]"
  by (rule nth_equalityI) (simp_all add: counted_def)

lemma counted_multiplicities:
  assumes "counted rs s" "length rs = 5"
  shows "\<exists>a b c d e. dupes s ! 1 = int a \<and> dupes s ! 2 = int b \<and> dupes s ! 3 = int c \<and>
           dupes s ! 4 = int d \<and> dupes s ! 5 = int e \<and>
           a + 2 * b + 3 * c + 4 * d + 5 * e = (5::nat)"
proof -
  have rk: "ranks s = map (count_list rs) [0..<13]" using assms(1) by (rule counted_ranks)
  have small: "\<forall>r \<in> set rs. r < 13" using assms(1) by (simp add: counted_def)
  have total: "sum_list (ranks s) = 5"
    using sum_list_count_list [OF small] assms(2) rk by simp
  have "\<forall>x \<in> set (ranks s). x \<le> 5"
    using member_le_sum_list [of _ "ranks s"] total by auto
  from sum_list_by_multiplicity [OF this] total
  have "count_list (ranks s) 1 + 2 * count_list (ranks s) 2 + 3 * count_list (ranks s) 3 +
        4 * count_list (ranks s) 4 + 5 * count_list (ranks s) 5 = 5"
    by simp
  moreover have "\<And>k. 0 < k \<Longrightarrow> k < 6 \<Longrightarrow> dupes s ! k = int (count_list (ranks s) k)"
    using assms(1) by (simp add: counted_def)
  ultimately show ?thesis by fastforce
qed

lemma classify_Inl_iff:
  "classify n flush replace text c s = Inl e \<longleftrightarrow>
     e = FailedToEvalHand c \<and>
     \<not> (\<not> flush \<and> str8top s = 0 \<and> dupes s ! 1 = int n) \<and>
     \<not> (dupes s ! 2 = 1 \<and> dupes s ! 3 = 0) \<and>
     dupes s ! 2 \<noteq> 2 \<and>
     \<not> (dupes s ! 3 = 1 \<and> dupes s ! 2 = 0) \<and>
     \<not> (str8top s \<noteq> 0 \<and> \<not> flush) \<and>
     \<not> (flush \<and> str8top s = 0) \<and>
     \<not> (dupes s ! 2 = 1 \<and> dupes s ! 3 = 1) \<and>
     dupes s ! 4 \<noteq> 1 \<and>
     \<not> (str8top s \<noteq> 0 \<and> flush) \<and>
     dupes s ! 5 \<noteq> 1"
  unfolding classify_def Let_def
  by (simp split: prod.split) blast

lemma no_partition_left:
  assumes "a + 2 * b + 3 * c + 4 * d + 5 * e = (5::nat)"
    and "a \<noteq> 5" "\<not> (b = 1 \<and> c = 0)" "b \<noteq> 2" "\<not> (c = 1 \<and> b = 0)" "\<not> (b = 1 \<and> c = 1)"
    and "d \<noteq> 1" "e \<noteq> 1"
  shows False
proof -
  have e: "e = 0" using assms(1,8) by linarith
  have d: "d = 0" using assms(1,7) by linarith
  have c: "c \<le> 1" using assms(1) by linarith
  have b: "b \<le> 2" using assms(1) by linarith
  show False using assms e d c b by (cases "c = 0"; cases "b = 0"; simp)
qed

lemma classify_total:
  assumes "counted rs s" "length rs = 5"
    and "dupes s' = dupes s" "str8top s' = str8top s"
  shows "\<exists>ev. classify 5 flush replace text c s' = Inr ev"
proof (cases "classify 5 flush replace text c s'")
  case (Inr ev)
  then show ?thesis by blast
next
  case (Inl x)
  obtain a b c d e :: nat where m: "dupes s ! 1 = int a" "dupes s ! 2 = int b"
      "dupes s ! 3 = int c" "dupes s ! 4 = int d" "dupes s ! 5 = int e"
      "a + 2 * b + 3 * c + 4 * d + 5 * e = 5"
    using counted_multiplicities [OF assms(1,2)] by blast
  note neg = Inl [unfolded classify_Inl_iff assms(3,4) m]
  have plain: "\<not> flush" "str8top s = 0"
    using neg by auto
  have "a \<noteq> 5" "\<not> (b = 1 \<and> c = 0)" "b \<noteq> 2" "\<not> (c = 1 \<and> b = 0)" "\<not> (b = 1 \<and> c = 1)"
      "d \<noteq> 1" "e \<noteq> 1"
    using neg plain by auto
  with m(6) have False by (rule no_partition_left)
  then show ?thesis ..
qed

lemma evalSlow27_total:
  assumes "length c = 5" "\<forall>x \<in> set c. Valid x"
  shows "\<exists>ev. evalSlow27 c replace text = Inr (Inr ev)"
proof -
  obtain s where s: "count_passes c = Inr s" "counted (map (final_slot c) c) s"
    using count_passes_counted [OF assms] by blast
  have "\<exists>ev. classify 5 (isFlush c) replace text c (s\<lparr>rankBits := mask_buckets (rankBits s)\<rparr>)
          = Inr ev"
    by (rule classify_total [OF s(2)]) (simp_all add: assms(1))
  then show ?thesis using s(1) assms(1) by (auto simp: evalSlow27_def)
qed

section \<open>Five cards never make the slow evaluator fail\<close>







section \<open>Sorting and hashing\<close>

lemma mset_insert_left: "mset (insert_left x ys) = add_mset x (mset ys)"
  by (induction ys) auto

lemma mset_insertion_loop:
  "mset (foldl (\<lambda>left x. insert_left x left) acc cs) = mset acc + mset cs"
  by (induction cs arbitrary: acc) (auto simp: mset_insert_left)

lemma mset_SortCards: "mset (SortCards cs) = mset cs"
  by (simp add: SortCards_def mset_insertion_loop)

lemma length_SortCards: "length (SortCards cs) = length cs"
  using mset_SortCards [of cs] by (metis size_mset)

lemma set_SortCards: "set (SortCards cs) = set cs"
  using mset_SortCards [of cs] by (metis set_mset_mset)

lemma unat_card_of_nat: "a < 52 \<Longrightarrow> unat (of_nat a :: Card) = a"
  by (simp add: unat_of_nat)

lemma Valid_of_nat: "a < 52 \<Longrightarrow> Valid (of_nat a)"
  by (simp add: Valid_unat unat_card_of_nat)

lemma lex_quot_rem:
  "ra < 4 \<Longrightarrow> rb < 4 \<Longrightarrow>
   (if qa \<noteq> qb then qb < qa else rb < ra) \<longleftrightarrow> 4 * qb + rb < 4 * qa + (ra::nat)"
  by (cases "qa = qb") (simp, simp, linarith)

lemma lex_div_mod:
  "(if a div 4 \<noteq> b div 4 then b div 4 < a div 4 else b mod 4 < a mod 4) \<longleftrightarrow> b < (a::nat)"
  using lex_quot_rem [of "a mod 4" "b mod 4" "a div 4" "b div 4"] by simp

lemma card_less_of_nat:
  assumes "4 \<le> a" "a < 52" "4 \<le> b" "b < 52"
  shows "card_less (of_nat a) (of_nat b) \<longleftrightarrow> b < a"
proof -
  have ra: "rank_of (of_nat a) = a div 4 + 1" and rb: "rank_of (of_nat b) = b div 4 + 1"
    using assms by (simp_all add: rank_of_unat unat_card_of_nat)
  have suits: "(of_nat b AND 3 :: Card) < of_nat a AND 3 \<longleftrightarrow> b mod 4 < a mod 4"
    using assms by (simp add: word_less_nat_alt unat_suit_bits unat_card_of_nat)
  have nz: "a div 4 \<noteq> 0" "b div 4 \<noteq> 0" using assms by auto
  have "card_less (of_nat a) (of_nat b) \<longleftrightarrow>
        (if a div 4 \<noteq> b div 4 then b div 4 < a div 4 else b mod 4 < a mod 4)"
    unfolding card_less_def Let_def ra rb suits using nz by simp
  then show ?thesis by (simp only: lex_div_mod)
qed
lemma SortCards_ascending:
  assumes "4 \<le> i" "i < j" "j < k" "k < l" "l < m" "m < 52"
  shows "SortCards (map of_nat [i, j, k, l, m]) = map of_nat [m, l, k, j, i]"
proof -
  have less: "\<And>a b. a \<in> {i, j, k, l, m} \<Longrightarrow> b \<in> {i, j, k, l, m} \<Longrightarrow>
                card_less (of_nat a) (of_nat b) \<longleftrightarrow> b < a"
    using assms by (intro card_less_of_nat) auto
  have ji: "card_less (of_nat j) (of_nat i)" using less [of j i] assms by simp
  have kj: "card_less (of_nat k) (of_nat j)" using less [of k j] assms by simp
  have lk: "card_less (of_nat l) (of_nat k)" using less [of l k] assms by simp
  have ml: "card_less (of_nat m) (of_nat l)" using less [of m l] assms by simp
  have ki: "card_less (of_nat k) (of_nat i)" using less [of k i] assms by simp
  have li: "card_less (of_nat l) (of_nat i)" using less [of l i] assms by simp
  have mi: "card_less (of_nat m) (of_nat i)" using less [of m i] assms by simp
  have lj: "card_less (of_nat l) (of_nat j)" using less [of l j] assms by simp
  have mj: "card_less (of_nat m) (of_nat j)" using less [of m j] assms by simp
  have mk: "card_less (of_nat m) (of_nat k)" using less [of m k] assms by simp
  show ?thesis
    by (simp add: SortCards_def ji kj lk ml ki li mi lj mj mk)
qed
lemma pow_53:
  "pow 53 0 = 1" "pow 53 (Suc 0) = 53" "pow 53 (Suc (Suc 0)) = 2809"
  "pow 53 (Suc (Suc (Suc 0))) = 148877" "pow 53 (Suc (Suc (Suc (Suc 0)))) = 7890481"
  by (simp_all add: pow_def)

lemma card_code:
  assumes "a < 52"
  shows "(ucast (drop_bit 2 (of_nat a :: Card) AND 15) :: 32 word) * 4 + ucast (of_nat a AND 3 :: Card)
         = of_nat a"
proof -
  have r: "unat (drop_bit 2 (of_nat a :: Card) AND 15) = a div 4"
    using rank_of_unat [of "of_nat a"] assms by (simp add: rank_of_def unat_card_of_nat)
  have s: "unat (of_nat a AND 3 :: Card) = a mod 4"
    using assms by (simp add: unat_suit_bits unat_card_of_nat)
  have hi: "(ucast (drop_bit 2 (of_nat a :: Card) AND 15) :: 32 word) = of_nat (a div 4)"
    using r by (metis of_nat_unat)
  have lo: "(ucast (of_nat a AND 3 :: Card) :: 32 word) = of_nat (a mod 4)"
    using s by (metis of_nat_unat)
  have "(of_nat (a div 4 * 4 + a mod 4) :: 32 word) = of_nat a" by simp
  then have "(of_nat (a div 4) :: 32 word) * 4 + of_nat (a mod 4) = of_nat a"
    by (simp only: of_nat_add of_nat_mult of_nat_numeral)
  then show ?thesis by (simp only: hi lo)
qed

lemma perfectHash_loop_of_nat:
  "a < 52 \<Longrightarrow>
   perfectHash_loop i (of_nat a # cs) val =
   perfectHash_loop (Suc i) cs (val + of_nat a * ucast (pow 53 i))"
  by (simp only: perfectHash_loop.simps Let_def card_code Suc_eq_plus1)

lemma perfectHash_of_nat:
  assumes "m < 52" "l < 52" "k < 52" "j < 52" "i < 52"
  shows "perfectHash (map of_nat [m, l, k, j, i]) =
         (m + 53 * l + 2809 * k + 148877 * j + 7890481 * i) mod 7462"
proof -
  define N where "N = m + 53 * l + 2809 * k + 148877 * j + 7890481 * i"
  have "N < 2 ^ 32" using assms by (simp add: N_def)
  then have N: "unat (of_nat N :: 32 word) = N"
    by (simp add: unat_of_nat)
  have "perfectHash_loop 0 (map of_nat [m, l, k, j, i]) 0 =
        (of_nat m + of_nat l * 53 + of_nat k * 2809 + of_nat j * 148877 + of_nat i * 7890481 :: 32 word)"
    using assms by (simp add: perfectHash_loop_of_nat pow_53 del: perfectHash_loop.simps(2))
  also have "\<dots> = of_nat N"
    by (simp add: N_def)
  finally have "perfectHash (map of_nat [m, l, k, j, i]) = unat (of_nat N mod 7462 :: 32 word)"
    by (simp only: perfectHash_def)
  also have "\<dots> = unat (of_nat N :: 32 word) mod 7462"
    by (simp add: unat_mod)
  finally show ?thesis by (simp only: N) (simp only: N_def)
qed

section \<open>Sorting does not depend on the order of the cards\<close>

lemma card_less_key: "card_less x y \<longleftrightarrow> sort_key_of y < sort_key_of x"
proof -
  define qa where "qa = (if rank_of x = 1 then 14 else rank_of x)"
  define qb where "qb = (if rank_of y = 1 then 14 else rank_of y)"
  define ra where "ra = unat (x AND 3)"
  define rb where "rb = unat (y AND 3)"
  have small: "ra < 4" "rb < 4" by (simp_all add: ra_def rb_def unat_suit_bits)
  have "card_less x y \<longleftrightarrow> (if qa \<noteq> qb then qb < qa else rb < ra)"
    by (simp only: card_less_def Let_def qa_def qb_def ra_def rb_def word_less_nat_alt)
  also have "\<dots> \<longleftrightarrow> 4 * qb + rb < 4 * qa + ra"
    using small by (rule lex_quot_rem)
  also have "\<dots> \<longleftrightarrow> sort_key_of y < sort_key_of x"
    by (simp only: sort_key_of_def qa_def qb_def ra_def rb_def mult.commute [of 4])
  finally show ?thesis .
qed

lemma insert_left_insort: "insert_left x ys = insort_key sort_key_of x ys"
  by (induction ys) (auto simp: card_less_key)

lemma insertion_loop_sort:
  "foldl (\<lambda>left x. insert_left x left) acc cs = foldr (insort_key sort_key_of) (rev cs) acc"
  by (induction cs arbitrary: acc) (simp_all add: insert_left_insort)

lemma SortCards_sort_key: "SortCards cs = rev (sort_key sort_key_of (rev cs))"
  by (simp add: SortCards_def insertion_loop_sort sort_key_def)

lemma sort_key_of_Valid:
  "Valid c \<Longrightarrow> sort_key_of c = (if unat c < 4 then unat c + 56 else unat c + 4)"
  using rank_of_Valid [of c] by (auto simp: sort_key_of_def unat_suit_bits)

lemma sort_key_of_inj:
  assumes "Valid x" "Valid y" "sort_key_of x = sort_key_of y"
  shows "x = y"
proof -
  have "unat x = unat y"
    using assms by (auto simp: sort_key_of_Valid Valid_unat split: if_splits)
  then show ?thesis by (simp add: word_unat_eq_iff)
qed

lemma map_sort_key: "map f (sort_key f xs) = sort (map f xs)"
  by (rule properties_for_sort [symmetric]) simp_all

lemma sort_mset_cong: "mset xs = mset ys \<Longrightarrow> sort xs = sort ys"
  by (rule properties_for_sort) simp_all

lemma SortCards_permutation:
  assumes "\<forall>c \<in> set hand. Valid c" "mset hand' = mset hand"
  shows "SortCards hand' = SortCards hand"
proof -
  have sets: "set hand' = set hand" using assms(2) by (metis set_mset_mset)
  have "mset (map sort_key_of (rev hand')) = mset (map sort_key_of (rev hand))"
    using assms(2) by simp
  then have "sort (map sort_key_of (rev hand')) = sort (map sort_key_of (rev hand))"
    by (rule sort_mset_cong)
  then have keys: "map sort_key_of (sort_key sort_key_of (rev hand')) =
                   map sort_key_of (sort_key sort_key_of (rev hand))"
    by (simp only: map_sort_key)
  have "inj_on sort_key_of (set (sort_key sort_key_of (rev hand')) \<union>
                            set (sort_key sort_key_of (rev hand)))"
    using assms(1) sets by (auto intro!: inj_onI sort_key_of_inj)
  from inj_on_map_eq_map [OF this] keys
  have "sort_key sort_key_of (rev hand') = sort_key sort_key_of (rev hand)" by simp
  then show ?thesis by (simp only: SortCards_sort_key)
qed

lemma Eval27Fast_permutation:
  assumes "\<forall>c \<in> set hand. Valid c" "mset hand' = mset hand"
  shows "Eval27Fast slowRankToPacked g hand' = Eval27Fast slowRankToPacked g hand"
  unfolding Eval27Fast_def SortCards_permutation [OF assms] ..

section \<open>Every bucket is written\<close>

lemma chain_cover_runs: "chain 0 cover_runs"
  unfolding cover_runs_def by (simp add: run_base_def)

lemma chain_covers:
  "chain pos runs \<Longrightarrow> pos \<le> idx \<Longrightarrow> idx < 7462 \<Longrightarrow>
   \<exists>i j k l m. 4 \<le> i \<and> i < j \<and> j < k \<and> k < l \<and> l < m \<and> m < 52 \<and>
                (m + run_base i j k l) mod 7462 = idx"
proof (induction runs arbitrary: pos)
  case Nil
  then show ?case by simp
next
  case (Cons run runs)
  obtain i j k l w where run: "run = (i, j, k, l, w)" by (cases run) auto
  define b where "b = run_base i j k l"
  from Cons.prems(1) have ok: "4 \<le> i" "i < j" "j < k" "k < l" "l < 51"
      "b + l + 1 \<le> pos + 7462 * w" "chain (max pos (b + 52 - 7462 * w)) runs"
    by (simp_all add: run b_def)
  show ?case
  proof (cases "idx < b + 52 - 7462 * w")
    case True
    define m where "m = idx + 7462 * w - b"
    have m: "l < m" "m < 52" "m + b = idx + 7462 * w"
      using True ok(6) Cons.prems(2) by (simp_all add: m_def)
    have "(m + b) mod 7462 = idx"
      using m(3) Cons.prems(3) by simp
    then show ?thesis using ok m unfolding b_def by blast
  next
    case False
    then have "max pos (b + 52 - 7462 * w) \<le> idx" using Cons.prems(2) by simp
    from Cons.IH [OF ok(7) this Cons.prems(3)] show ?thesis .
  qed
qed

lemma perfectHash_ascending:
  assumes "4 \<le> i" "i < j" "j < k" "k < l" "l < m" "m < 52"
  shows "perfectHash (SortCards (map of_nat [i, j, k, l, m])) = (m + run_base i j k l) mod 7462"
proof -
  have "perfectHash (SortCards (map of_nat [i, j, k, l, m])) =
        (m + 53 * l + 2809 * k + 148877 * j + 7890481 * i) mod 7462"
    using assms by (simp only: SortCards_ascending) (rule perfectHash_of_nat, simp_all)
  also have "\<dots> = (m + run_base i j k l) mod 7462"
    unfolding run_base_def by (simp add: mod_simps add.assoc)
  finally show ?thesis .
qed

lemma every_bucket_hit:
  assumes "idx < 7462"
  shows "\<exists>h \<in> set all_hands. perfectHash (SortCards (map of_nat h)) = idx"
proof -
  obtain i j k l m where h: "4 \<le> i" "i < j" "j < k" "k < l" "l < m" "m < 52"
      "(m + run_base i j k l) mod 7462 = idx"
    using chain_covers [OF chain_cover_runs _ assms] by auto
  have "[i, j, k, l, m] \<in> set all_hands"
    unfolding all_hands_asc set_asc using h by auto
  moreover have "perfectHash (SortCards (map of_nat [i, j, k, l, m])) = idx"
    using perfectHash_ascending [OF h(1-6)] h(7) by simp
  ultimately show ?thesis by blast
qed

lemma all_hands_valid:
  assumes "h \<in> set all_hands"
  shows "length (map of_nat h :: Card list) = 5 \<and> (\<forall>c \<in> set (map of_nat h :: Card list). Valid c)"
  using assms unfolding all_hands_asc set_asc by (auto simp: Valid_of_nat)

lemma store_hand_succeeds:
  assumes "h \<in> set all_hands" "length table = 7462"
    and "\<forall>ev. slowRankToPacked ev \<noteq> 0"
  shows "\<exists>ev. store_hand slowRankToPacked (map of_nat h) table =
           Inr (table[perfectHash (SortCards (map of_nat h)) := slowRankToPacked ev])"
proof -
  have "length (SortCards (map of_nat h)) = 5" "\<forall>c \<in> set (SortCards (map of_nat h)). Valid c"
    using all_hands_valid [OF assms(1)] by (simp_all add: length_SortCards set_SortCards)
  from evalSlow27_total [OF this]
  obtain ev where "evalSlow27 (SortCards (map of_nat h)) True False = Inr (Inr ev)" by blast
  then show ?thesis
    using assms(2,3) perfectHash_less [of "SortCards (map of_nat h)"]
    by (auto simp: store_hand_def Let_def)
qed

lemma fill_succeeds:
  assumes "\<forall>ev. slowRankToPacked ev \<noteq> 0 \<and> slowRankToPacked ev \<noteq> - 1"
  shows "set hs \<subseteq> set all_hands \<Longrightarrow> length table = 7462 \<Longrightarrow>
    \<exists>table'. for_each (store_hand slowRankToPacked) (map (map of_nat) hs) table = Inr table' \<and>
      length table' = 7462 \<and>
      (\<forall>idx < 7462. table ! idx \<noteq> - 1 \<or>
           (\<exists>h \<in> set hs. perfectHash (SortCards (map of_nat h)) = idx) \<longrightarrow>
         table' ! idx \<noteq> - 1)"
proof (induction hs arbitrary: table)
  case Nil
  then show ?case by simp
next
  case (Cons h hs)
  define b where "b = perfectHash (SortCards (map of_nat h :: Card list))"
  have hmem: "h \<in> set all_hands" using Cons.prems(1) by simp
  obtain ev where step: "store_hand slowRankToPacked (map of_nat h) table =
      Inr (table[b := slowRankToPacked ev])"
    using store_hand_succeeds [OF hmem Cons.prems(2)] assms unfolding b_def by blast
  define t1 where "t1 = table[b := slowRankToPacked ev]"
  have len1: "length t1 = 7462" using Cons.prems(2) by (simp add: t1_def)
  have b: "b < 7462" unfolding b_def by (rule perfectHash_less)
  from Cons.IH [OF _ len1] Cons.prems(1)
  obtain table' where rest:
      "for_each (store_hand slowRankToPacked) (map (map of_nat) hs) t1 = Inr table'"
      "length table' = 7462"
      "\<forall>idx < 7462. t1 ! idx \<noteq> - 1 \<or>
           (\<exists>h \<in> set hs. perfectHash (SortCards (map of_nat h)) = idx) \<longrightarrow>
         table' ! idx \<noteq> - 1"
    by auto
  have t1_nth: "\<And>idx. idx < 7462 \<Longrightarrow>
      t1 ! idx = (if idx = b then slowRankToPacked ev else table ! idx)"
    using Cons.prems(2) by (auto simp: t1_def)
  have "\<forall>idx < 7462. table ! idx \<noteq> - 1 \<or>
           (\<exists>h' \<in> set (h # hs). perfectHash (SortCards (map of_nat h')) = idx) \<longrightarrow>
         table' ! idx \<noteq> - 1"
  proof (intro allI impI)
    fix idx assume idx: "idx < 7462"
      and hit: "table ! idx \<noteq> - 1 \<or>
           (\<exists>h' \<in> set (h # hs). perfectHash (SortCards (map of_nat h')) = idx)"
    have "t1 ! idx \<noteq> - 1 \<or> (\<exists>h \<in> set hs. perfectHash (SortCards (map of_nat h)) = idx)"
      using hit assms t1_nth [OF idx] by (auto simp: b_def)
    then show "table' ! idx \<noteq> - 1" using rest(3) idx by blast
  qed
  then show ?case using step rest(1,2) by (simp add: t1_def)
qed

lemma build_table_succeeds:
  assumes "\<forall>ev. slowRankToPacked ev \<noteq> 0 \<and> slowRankToPacked ev \<noteq> - 1"
  shows "\<exists>table. build_table slowRankToPacked = Inr table"
proof -
  have "length (replicate 7462 (- 1 :: int16)) = 7462" by simp
  from fill_succeeds [OF assms subset_refl this]
  obtain table where t:
      "for_each (store_hand slowRankToPacked) (map (map of_nat) all_hands)
         (replicate 7462 (- 1)) = Inr table"
      "length table = 7462"
      "\<forall>idx < 7462. (\<exists>h \<in> set all_hands. perfectHash (SortCards (map of_nat h)) = idx) \<longrightarrow>
         table ! idx \<noteq> - 1"
    by auto
  have "- 1 \<notin> set table"
  proof
    assume "- 1 \<in> set table"
    then obtain idx where "idx < 7462" "table ! idx = - 1"
      using t(2) by (metis in_set_conv_nth)
    then show False using t(3) every_bucket_hit by blast
  qed
  then have "verify_filled 0 table = Inr ()" by (rule verify_filled_ok)
  then show ?thesis using t(1) by (simp add: build_table_def fill_table_for_each)
qed

lemma example_packing_proper: "\<forall>ev. example_packing ev \<noteq> 0 \<and> example_packing ev \<noteq> - 1"
  by (simp add: example_packing_def)

lemma initDeuce7Table_example:
  "\<exists>g. initDeuce7Table example_packing initial_globals = Inr g"
  using build_table_succeeds [OF example_packing_proper]
  by (auto simp: initDeuce7Table_def initial_globals_def)

section \<open>Construction and use of the table\<close>

lemma cards_of_last_hand: "map of_nat [47, 48, 49, 50, 51 :: nat] = [47, 48, 49, 50, 51 :: Card]"
  by simp

lemma build_table_last_bucket:
  assumes "build_table slowRankToPacked = Inr table"
  shows "table ! 2195 = slowRankToPacked (EvalScore5 7 11 10 0 0 0)"
proof -
  have "all_hands = butlast all_hands @ [[47, 48, 49, 50, 51]]"
    using last_all_hands append_butlast_last_id [of all_hands] by simp
  then have "map (map of_nat) all_hands =
        map (map of_nat) (butlast all_hands) @ [map of_nat [47, 48, 49, 50, 51 :: nat] :: Card list]"
    by (metis list.simps(8,9) map_append)
  then have "map (map of_nat) all_hands =
        map (map of_nat) (butlast all_hands) @ [[47, 48, 49, 50, 51 :: Card]]"
    by (simp only: cards_of_last_hand)
  with build_table_Inr(1) [OF assms]
  have "for_each (store_hand slowRankToPacked)
          (map (map of_nat) (butlast all_hands) @ [[47, 48, 49, 50, 51]])
          (replicate 7462 (- 1)) = Inr table"
    by simp
  from for_each_store_hand_last [OF this] show ?thesis
    by (simp add: perfectHash_quad_kings evalSlow27_quad_kings)
qed

text \<open>
  C1.  Once the table is built, \<open>Eval27Fast\<close> gives the hand 2C 3H 6D 7H 8C (cards
  4, 10, 21, 26, 28) the packed score of four Kings with a Queen: that hand is the last
  one the construction writes, into the bucket the two hands share.  The slow path
  classifies the hand as no pair, eight high.
\<close>

theorem Eval27Fast_eight_high_is_quad_kings:
  assumes "initDeuce7Table slowRankToPacked initial_globals = Inr g"
  shows "Eval27Fast slowRankToPacked initial_globals [4, 10, 21, 26, 28] =
           Inr (slowRankToPacked (EvalScore5 7 11 10 0 0 0), g) \<and>
         Eval27Fast slowRankToPacked g [4, 10, 21, 26, 28] =
           Inr (slowRankToPacked (EvalScore5 7 11 10 0 0 0), g) \<and>
         evalSlow27 [4, 10, 21, 26, 28] True False = Inr (Inr (EvalScore5 0 6 5 4 1 0))"
proof -
  obtain table where t: "build_table slowRankToPacked = Inr table"
    and g: "g = \<lparr>deuce7RootTable = Some table, deuce7TableInit = True\<rparr>"
    using initDeuce7Table_Inr [OF assms] by blast
  have "Eval27Fast slowRankToPacked g [4, 10, 21, 26, 28] = Inr (table ! 2195, g)"
    using Eval27Fast_built [of g table slowRankToPacked "[4, 10, 21, 26, 28]"]
      build_table_Inr(2) [OF t] g
    by (simp add: perfectHash_eight_high)
  then show ?thesis
    using Eval27Fast_initial [OF assms] build_table_last_bucket [OF t] evalSlow27_eight_high
    by simp
qed

theorem Eval27Fast_eight_high_is_quad_kings_witness:
  "\<exists>g. initDeuce7Table example_packing initial_globals = Inr g \<and>
        Eval27Fast example_packing g [4, 10, 21, 26, 28] = Inr (2, g) \<and>
        Eval27 example_packing initial_globals [4, 10, 21, 26, 28] = Inr (1, initial_globals)"
proof -
  obtain g where g: "initDeuce7Table example_packing initial_globals = Inr g"
    using initDeuce7Table_example by blast
  have slow: "Eval27 example_packing initial_globals [4, 10, 21, 26, 28] =
                Inr (1, initial_globals)"
    by (simp add: Eval27_def initial_globals_def evalSlow27_eight_high example_packing_def)
  show ?thesis
    using Eval27Fast_eight_high_is_quad_kings [OF g] g slow
    by (auto simp: example_packing_def)
qed

text \<open>
  C7.  The score \<open>Eval27\<close> gives a hand depends on whether the table has been built.
  For the hand 2C 3H 6D 7H 8C, a first call of \<open>Eval27\<close> takes the slow path and returns
  the packed score of no pair, eight high, and leaves the table unbuilt; a call of
  \<open>Eval27Fast\<close> on the same hand builds the table and returns the packed score of four
  Kings with a Queen; the next call of \<open>Eval27\<close> on the same hand finds the table and
  returns that second score.
\<close>

theorem Eval27_score_changes_once_table_is_built:
  assumes "initDeuce7Table slowRankToPacked initial_globals = Inr g"
  shows "Eval27 slowRankToPacked initial_globals [4, 10, 21, 26, 28] =
           Inr (slowRankToPacked (EvalScore5 0 6 5 4 1 0), initial_globals) \<and>
         Eval27Fast slowRankToPacked initial_globals [4, 10, 21, 26, 28] =
           Inr (slowRankToPacked (EvalScore5 7 11 10 0 0 0), g) \<and>
         Eval27 slowRankToPacked g [4, 10, 21, 26, 28] =
           Inr (slowRankToPacked (EvalScore5 7 11 10 0 0 0), g)"
proof -
  obtain table where t: "build_table slowRankToPacked = Inr table"
    and g: "g = \<lparr>deuce7RootTable = Some table, deuce7TableInit = True\<rparr>"
    using initDeuce7Table_Inr [OF assms] by blast
  have fast: "Eval27Fast slowRankToPacked g [4, 10, 21, 26, 28] =
                Inr (slowRankToPacked (EvalScore5 7 11 10 0 0 0), g)"
    using Eval27Fast_built [of g table slowRankToPacked "[4, 10, 21, 26, 28]"]
      build_table_Inr(2) [OF t] g build_table_last_bucket [OF t]
    by (simp add: perfectHash_eight_high)
  have slow: "Eval27 slowRankToPacked initial_globals [4, 10, 21, 26, 28] =
                Inr (slowRankToPacked (EvalScore5 0 6 5 4 1 0), initial_globals)"
    by (simp add: Eval27_def initial_globals_def evalSlow27_eight_high)
  have "Eval27 slowRankToPacked g [4, 10, 21, 26, 28] =
          Eval27Fast slowRankToPacked g [4, 10, 21, 26, 28]"
    using g by (simp add: Eval27_def)
  then show ?thesis
    using fast slow Eval27Fast_initial [OF assms, of "[4, 10, 21, 26, 28]"] by simp
qed

theorem Eval27_score_changes_once_table_is_built_witness:
  "\<exists>g. initDeuce7Table example_packing initial_globals = Inr g \<and>
        Eval27 example_packing initial_globals [4, 10, 21, 26, 28] = Inr (1, initial_globals) \<and>
        Eval27Fast example_packing initial_globals [4, 10, 21, 26, 28] = Inr (2, g) \<and>
        Eval27 example_packing g [4, 10, 21, 26, 28] = Inr (2, g)"
proof -
  obtain g where g: "initDeuce7Table example_packing initial_globals = Inr g"
    using initDeuce7Table_example by blast
  show ?thesis
    using Eval27_score_changes_once_table_is_built [OF g] g
    by (auto simp: example_packing_def)
qed

lemma for_each_count: "for_each (\<lambda>hand n. Inr (Suc n)) xs n = Inr (n + length xs)"
  by (induction xs arbitrary: n) simp_all

lemma card_hands_inj: "inj_on (map of_nat :: nat list \<Rightarrow> Card list) (set all_hands)"
proof (rule inj_onI)
  fix xs ys :: "nat list"
  assume xs: "xs \<in> set all_hands" and ys: "ys \<in> set all_hands"
    and eq: "(map of_nat xs :: Card list) = map of_nat ys"
  have small: "\<And>zs. zs \<in> set all_hands \<Longrightarrow> \<forall>z \<in> set zs. z < 52"
    unfolding all_hands_asc set_asc by auto
  have roundtrip: "\<And>zs. zs \<in> set all_hands \<Longrightarrow> map unat (map of_nat zs :: Card list) = zs"
  proof -
    fix zs assume "zs \<in> set all_hands"
    then have "\<forall>z \<in> set zs. unat (of_nat z :: Card) = z"
      using small [of zs] by (simp add: unat_card_of_nat)
    then show "map unat (map of_nat zs :: Card list) = zs"
      by (simp add: map_idI)
  qed
  from roundtrip [OF xs] roundtrip [OF ys] eq show "xs = ys" by simp
qed

lemma initDeuce7Table_loops:
  "initDeuce7Table slowRankToPacked g =
     (if deuce7TableInit g then Inr g
      else case for_each (store_hand slowRankToPacked) (map (map of_nat) all_hands)
                  (replicate 7462 (- 1)) of
             Inl p \<Rightarrow> Inl p
           | Inr table \<Rightarrow>
               (case verify_filled 0 table of
                  Inl p \<Rightarrow> Inl p
                | Inr u \<Rightarrow> Inr \<lparr>deuce7RootTable = Some table, deuce7TableInit = True\<rparr>))"
  by (simp add: initDeuce7Table_def build_table_def fill_table_for_each split: sum.splits)

text \<open>
  C8.  Unless the table is already built, \<open>initDeuce7Table\<close> is the loop that runs
  \<open>store_hand\<close> once on each element of \<open>all_hands\<close>, in order, on a table of 7462
  sentinels, stopping only at a panic, followed by the sweep for a remaining sentinel.
  \<open>all_hands\<close> lists every strictly ascending choice of five numbers below 52 exactly
  once, 2,598,960 in all, and they are different hands as cards too; the five nested
  loops run any body once on each of them, so a body that only counts ends at 2,598,960.
  When \<open>initDeuce7Table\<close> returns, the table has 7462 entries and none of them is the
  sentinel -1.
\<close>

theorem initDeuce7Table_enumerates_and_fills:
  "(\<forall>slowRankToPacked g.
      initDeuce7Table slowRankToPacked g =
        (if deuce7TableInit g then Inr g
         else case for_each (store_hand slowRankToPacked) (map (map of_nat) all_hands)
                     (replicate 7462 (- 1)) of
                Inl p \<Rightarrow> Inl p
              | Inr table \<Rightarrow>
                  (case verify_filled 0 table of
                     Inl p \<Rightarrow> Inl p
                   | Inr u \<Rightarrow> Inr \<lparr>deuce7RootTable = Some table, deuce7TableInit = True\<rparr>))) \<and>
   (\<forall>body s. fill_table body s = for_each body (map (map of_nat) all_hands) s) \<and>
   fill_table (\<lambda>hand n. Inr (Suc n)) 0 = Inr 2598960 \<and>
   distinct all_hands \<and>
   distinct (map (map of_nat) all_hands :: Card list list) \<and>
   set all_hands = {xs. length xs = 5 \<and> sorted_wrt (<) xs \<and> set xs \<subseteq> {0..<52}} \<and>
   length all_hands = 2598960 \<and>
   (\<forall>slowRankToPacked g.
      initDeuce7Table slowRankToPacked initial_globals = Inr g \<longrightarrow>
      (\<exists>table. deuce7RootTable g = Some table \<and> length table = 7462 \<and> - 1 \<notin> set table \<and>
         for_each (store_hand slowRankToPacked) (map (map of_nat) all_hands)
           (replicate 7462 (- 1)) = Inr table))"
proof (intro conjI allI impI)
  fix slowRankToPacked g
  show "initDeuce7Table slowRankToPacked g =
        (if deuce7TableInit g then Inr g
         else case for_each (store_hand slowRankToPacked) (map (map of_nat) all_hands)
                     (replicate 7462 (- 1)) of
                Inl p \<Rightarrow> Inl p
              | Inr table \<Rightarrow>
                  (case verify_filled 0 table of
                     Inl p \<Rightarrow> Inl p
                   | Inr u \<Rightarrow> Inr \<lparr>deuce7RootTable = Some table, deuce7TableInit = True\<rparr>))"
    by (rule initDeuce7Table_loops)
next
  fix body :: "Card list \<Rightarrow> 's \<Rightarrow> panic + 's" and s
  show "fill_table body s = for_each body (map (map of_nat) all_hands) s"
    by (rule fill_table_for_each)
next
  have len: "length all_hands = 2598960"
    unfolding all_hands_asc length_asc using choose_52_5 by simp
  show "fill_table (\<lambda>hand n. Inr (Suc n)) 0 = Inr 2598960"
    unfolding fill_table_for_each for_each_count using len by simp
next
  show "distinct all_hands" unfolding all_hands_asc by (rule distinct_asc)
next
  have "distinct all_hands" unfolding all_hands_asc by (rule distinct_asc)
  then show "distinct (map (map of_nat) all_hands :: Card list list)"
    using card_hands_inj by (simp add: distinct_map)
next
  show "set all_hands = {xs. length xs = 5 \<and> sorted_wrt (<) xs \<and> set xs \<subseteq> {0..<52}}"
    unfolding all_hands_asc by (rule set_asc)
next
  show "length all_hands = 2598960"
    unfolding all_hands_asc length_asc using choose_52_5 by simp
next
  fix slowRankToPacked g
  assume "initDeuce7Table slowRankToPacked initial_globals = Inr g"
  then obtain table where t: "build_table slowRankToPacked = Inr table"
    and g: "g = \<lparr>deuce7RootTable = Some table, deuce7TableInit = True\<rparr>"
    using initDeuce7Table_Inr by blast
  show "\<exists>table. deuce7RootTable g = Some table \<and> length table = 7462 \<and> - 1 \<notin> set table \<and>
         for_each (store_hand slowRankToPacked) (map (map of_nat) all_hands)
           (replicate 7462 (- 1)) = Inr table"
    using build_table_Inr(1,2,3) [OF t] g by simp
qed

theorem initDeuce7Table_enumerates_and_fills_witness:
  "\<exists>g table. initDeuce7Table example_packing initial_globals = Inr g \<and>
        deuce7RootTable g = Some table \<and> length table = 7462 \<and> - 1 \<notin> set table \<and>
        for_each (store_hand example_packing) (map (map of_nat) all_hands)
          (replicate 7462 (- 1)) = Inr table"
proof -
  obtain g where g: "initDeuce7Table example_packing initial_globals = Inr g"
    using initDeuce7Table_example by blast
  have "\<forall>slowRankToPacked g.
      initDeuce7Table slowRankToPacked initial_globals = Inr g \<longrightarrow>
      (\<exists>table. deuce7RootTable g = Some table \<and> length table = 7462 \<and> - 1 \<notin> set table \<and>
         for_each (store_hand slowRankToPacked) (map (map of_nat) all_hands)
           (replicate 7462 (- 1)) = Inr table)"
    using initDeuce7Table_enumerates_and_fills by blast
  then show ?thesis using g by blast
qed

text \<open>
  C10.  When \<open>initDeuce7Table\<close> has returned, no entry of the table is -1 or 0, and
  for every hand \<open>Eval27Fast\<close> returns a score that is neither 0 nor -1, whether it is
  called in the state before the construction or after it.
\<close>

theorem Eval27Fast_never_zero_or_sentinel:
  assumes "initDeuce7Table slowRankToPacked initial_globals = Inr g"
  shows "(\<exists>table. deuce7RootTable g = Some table \<and> - 1 \<notin> set table \<and> 0 \<notin> set table) \<and>
         (\<exists>score. Eval27Fast slowRankToPacked initial_globals hand = Inr (score, g) \<and>
                   Eval27Fast slowRankToPacked g hand = Inr (score, g) \<and>
                   score \<noteq> 0 \<and> score \<noteq> - 1)"
proof -
  obtain table where t: "build_table slowRankToPacked = Inr table"
    and g: "g = \<lparr>deuce7RootTable = Some table, deuce7TableInit = True\<rparr>"
    using initDeuce7Table_Inr [OF assms] by blast
  note facts = build_table_Inr(2,3,4) [OF t]
  have fast: "Eval27Fast slowRankToPacked g hand = Inr (table ! perfectHash (SortCards hand), g)"
    using Eval27Fast_built [of g table] facts(1) g by simp
  have "table ! perfectHash (SortCards hand) \<in> set table"
    using perfectHash_less [of "SortCards hand"] facts(1) by simp
  then have "table ! perfectHash (SortCards hand) \<noteq> 0"
    and "table ! perfectHash (SortCards hand) \<noteq> - 1"
    using facts(2,3) by metis+
  then show ?thesis
    using fast Eval27Fast_initial [OF assms] facts g by simp
qed

theorem Eval27Fast_never_zero_or_sentinel_witness:
  "\<exists>g score. initDeuce7Table example_packing initial_globals = Inr g \<and>
        Eval27Fast example_packing initial_globals [0, 49, 46, 43, 36] = Inr (score, g) \<and>
        Eval27Fast example_packing g [0, 49, 46, 43, 36] = Inr (score, g) \<and>
        score \<noteq> 0 \<and> score \<noteq> - 1"
proof -
  obtain g where g: "initDeuce7Table example_packing initial_globals = Inr g"
    using initDeuce7Table_example by blast
  show ?thesis
    using Eval27Fast_never_zero_or_sentinel [OF g, of "[0, 49, 46, 43, 36]"] g by blast
qed

end
